theory Spec2Isabelle
  imports Complex_Main
begin

section \<open>The centroid tracker of \<open>Tracker.jsx\<close>\<close>

text \<open>
  A shallow embedding of the class \<open>CentroidTracker\<close> of
  \<open>src/frontend/src/components/Tracker.jsx\<close> (lines 7 to 112) and of the
  nearest-centroid lookup of \<open>tick\<close> (lines 185 to 197).

  Numbers. Box coordinates are integers (\<open>tick\<close> rounds them before it calls
  \<open>update\<close>), so centroids are pairs of \<open>int\<close>. \<open>Math.hypot\<close> belongs to the JavaScript
  engine, not to the repository, and returns a rounded double: it is a parameter
  \<open>hypot\<close> of every function that calls it, a function from two integers to a \<open>real\<close>
  (every double that is a number is one), about which nothing is assumed unless a
  property says so. Ids and miss counters are unbounded naturals. \<open>Infinity\<close>, the start
  value of a running minimum, is \<open>None\<close>.

  Maps and sets. A JavaScript \<open>Map\<close> iterates in insertion order, and the code depends
  on it, so a \<open>Map\<close> is an association list in insertion order; a \<open>Set\<close> is the list of
  its elements in insertion order.
\<close>

subsection \<open>Numbers\<close>

type_synonym centroid = "int \<times> int"
type_synonym rect = "int \<times> int \<times> int \<times> int"

text \<open>\<open>Math.round(s / 2)\<close> for an integer \<open>s\<close>: halves round towards plus infinity.\<close>

definition round_half :: "int \<Rightarrow> int" where
  "round_half s = (s + 1) div 2"

text \<open>Lines 30 to 32 (and 37, 38, 189, 190): the centroid of a box \<open>[x1, y1, x2, y2]\<close>.\<close>

definition centroid_of :: "rect \<Rightarrow> centroid" where
  "centroid_of r = (case r of (x1, y1, x2, y2) \<Rightarrow> (round_half (x1 + x2), round_half (y1 + y2)))"

text \<open>The type of \<open>Math.hypot\<close> on two integer arguments.\<close>

type_synonym hypot_fn = "int \<Rightarrow> int \<Rightarrow> real"

text \<open>
  What the properties below use of \<open>Math.hypot\<close>, where they use anything: its result
  is not negative, and is 0 exactly when both arguments are 0.
\<close>

definition is_hypot :: "hypot_fn \<Rightarrow> bool" where
  "is_hypot hypot =
     ((\<forall>dx dy. 0 \<le> hypot dx dy) \<and> (\<forall>dx dy. hypot dx dy = 0 \<longleftrightarrow> dx = 0 \<and> dy = 0))"

text \<open>
  The exact Euclidean norm, which \<open>Math.hypot\<close> approximates. It is the distance the
  specification speaks of, and stands for \<open>Math.hypot\<close> in the examples, which keep
  all centroids on one horizontal line: there the norm is the absolute difference of the
  abscissas, and the double that \<open>Math.hypot\<close> returns is that integer.
\<close>

definition euclid :: "int \<Rightarrow> int \<Rightarrow> real" where
  "euclid dx dy = sqrt (real_of_int (dx * dx + dy * dy))"

text \<open>
  A miss counter as \<open>disappeared\<close> stores it. \<open>NaN\<close> is what \<open>undefined + 1\<close> gives when
  the counter of an id is read that has none.
\<close>

datatype count = NaN | Count nat

text \<open>\<open>this.disappeared.get(id) + 1\<close>, on the result of the lookup.\<close>

fun plus_one :: "count option \<Rightarrow> count" where
  "plus_one (Some (Count n)) = Count (n + 1)"
| "plus_one (Some NaN) = NaN"
| "plus_one None = NaN"

text \<open>\<open>this.disappeared.get(id) > this.maxDisappeared\<close>: false on \<open>NaN\<close> and \<open>undefined\<close>.\<close>

fun exceeds :: "count option \<Rightarrow> int \<Rightarrow> bool" where
  "exceeds (Some (Count n)) m = (m < int n)"
| "exceeds (Some NaN) m = False"
| "exceeds None m = False"

text \<open>\<open>d < best\<close> where \<open>best\<close> may still be \<open>Infinity\<close>.\<close>

fun less_inf :: "real \<Rightarrow> real option \<Rightarrow> bool" where
  "less_inf d None = True"
| "less_inf d (Some b) = (d < b)"

subsection \<open>Maps and sets in insertion order\<close>

definition keys :: "('k \<times> 'v) list \<Rightarrow> 'k list" where
  "keys m = map fst m"

text \<open>\<open>Map.prototype.set\<close>: an existing key keeps its place, a new one goes last.\<close>

fun map_set :: "('k \<times> 'v) list \<Rightarrow> 'k \<Rightarrow> 'v \<Rightarrow> ('k \<times> 'v) list" where
  "map_set [] k v = [(k, v)]"
| "map_set (p # m) k v = (if fst p = k then (k, v) # m else p # map_set m k v)"

definition map_delete :: "('k \<times> 'v) list \<Rightarrow> 'k \<Rightarrow> ('k \<times> 'v) list" where
  "map_delete m k = filter (\<lambda>p. fst p \<noteq> k) m"

definition map_get :: "('k \<times> 'v) list \<Rightarrow> 'k \<Rightarrow> 'v option" where
  "map_get m k = map_of m k"

definition set_add :: "'a list \<Rightarrow> 'a \<Rightarrow> 'a list" where
  "set_add s x = (if x \<in> set s then s else s @ [x])"

definition set_delete :: "'a list \<Rightarrow> 'a \<Rightarrow> 'a list" where
  "set_delete s x = removeAll x s"

subsection \<open>The tracker\<close>

record tracker =
  nextObjectID :: nat
  objects :: "(nat \<times> centroid) list"
  disappeared :: "(nat \<times> count) list"
  maxDisappeared :: int
  maxDistance :: real

text \<open>Lines 8 to 14, the body of the constructor.\<close>

definition CentroidTracker :: "int \<Rightarrow> real \<Rightarrow> tracker" where
  "CentroidTracker maxDisappeared0 maxDistance0 =
     \<lparr>nextObjectID = 1, objects = [], disappeared = [],
      maxDisappeared = maxDisappeared0, maxDistance = maxDistance0\<rparr>"

text \<open>
  The expression \<open>new CentroidTracker(a, b)\<close>. An omitted argument (\<open>None\<close>) takes the
  default 50. The result \<open>None\<close> would be an exception thrown by the constructor; its
  body has no \<open>throw\<close>.
\<close>

definition new_CentroidTracker :: "int option \<Rightarrow> real option \<Rightarrow> tracker option" where
  "new_CentroidTracker a b =
     Some (CentroidTracker (case a of None \<Rightarrow> 50 | Some v \<Rightarrow> v)
                           (case b of None \<Rightarrow> 50 | Some v \<Rightarrow> v))"

text \<open>Lines 16 to 21: \<open>register\<close> returns the id it issued, and the new state.\<close>

definition register :: "tracker \<Rightarrow> centroid \<Rightarrow> nat \<times> tracker" where
  "register t centroid =
     (let objectID = nextObjectID t in
      (objectID, t\<lparr>nextObjectID := objectID + 1,
                   objects := map_set (objects t) objectID centroid,
                   disappeared := map_set (disappeared t) objectID (Count 0)\<rparr>))"

text \<open>Lines 23 to 26.\<close>

definition deregister :: "tracker \<Rightarrow> nat \<Rightarrow> tracker" where
  "deregister t objectID =
     t\<lparr>objects := map_delete (objects t) objectID,
       disappeared := map_delete (disappeared t) objectID\<rparr>"

text \<open>
  The body of the two ageing loops (lines 46 to 49 and lines 100 to 103, the same three
  statements): count one more miss for the id and drop it when the counter exceeds
  \<open>maxDisappeared\<close>.
\<close>

definition mark_disappeared :: "tracker \<Rightarrow> nat \<Rightarrow> tracker" where
  "mark_disappeared t objectID =
     (let t1 = t\<lparr>disappeared :=
                  map_set (disappeared t) objectID
                    (plus_one (map_get (disappeared t) objectID))\<rparr>
      in if exceeds (map_get (disappeared t1) objectID) (maxDisappeared t1)
         then deregister t1 objectID else t1)"

text \<open>
  A run of \<open>register\<close> calls, one per centroid, in order (lines 36 to 40 and 106 to 108),
  with the ids the calls return, which the source discards.
\<close>

fun register_all :: "tracker \<Rightarrow> centroid list \<Rightarrow> nat list \<times> tracker" where
  "register_all t [] = ([], t)"
| "register_all t (c # cs) =
     (case register t c of (objectID, t1) \<Rightarrow>
        (case register_all t1 cs of (ids, t2) \<Rightarrow> (objectID # ids, t2)))"

subsection \<open>The distance matrix and the greedy matcher\<close>

text \<open>Lines 57 to 66.\<close>

definition dist_matrix :: "hypot_fn \<Rightarrow> centroid list \<Rightarrow> centroid list \<Rightarrow> real list list" where
  "dist_matrix hypot objectCentroids inputCentroids =
     map (\<lambda>oc. map (\<lambda>ic. hypot (fst oc - fst ic) (snd oc - snd ic)) inputCentroids)
       objectCentroids"

text \<open>
  Lines 73 to 81, one scan of the matrix. The triple \<open>(minVal, minR, minC)\<close> is \<open>None\<close>
  while \<open>minVal\<close> is \<open>Infinity\<close> (and \<open>minR = minC = -1\<close>): every entry of the matrix is
  finite, so the first free cell replaces it.
\<close>

definition scan_cell ::
  "real list list \<Rightarrow> nat list \<Rightarrow> nat \<Rightarrow> nat \<Rightarrow> (real \<times> nat \<times> nat) option
     \<Rightarrow> (real \<times> nat \<times> nat) option" where
  "scan_cell D assignedCols r c acc =
     (if c \<in> set assignedCols then acc
      else if less_inf (D ! r ! c) (map_option fst acc) then Some (D ! r ! c, r, c)
      else acc)"

definition scan_row ::
  "real list list \<Rightarrow> nat list \<Rightarrow> nat list \<Rightarrow> nat \<Rightarrow> (real \<times> nat \<times> nat) option
     \<Rightarrow> (real \<times> nat \<times> nat) option" where
  "scan_row D assignedRows assignedCols r acc =
     (if r \<in> set assignedRows then acc
      else fold (scan_cell D assignedCols r) [0..<length (D ! r)] acc)"

definition find_min ::
  "real list list \<Rightarrow> nat list \<Rightarrow> nat list \<Rightarrow> (real \<times> nat \<times> nat) option" where
  "find_min D assignedRows assignedCols =
     fold (scan_row D assignedRows assignedCols) [0..<length D] None"

text \<open>
  The cells a scan looks at: row and column both unassigned. \<open>first_min_of D S acc\<close> says
  that \<open>acc\<close> is the smallest entry over the cells \<open>S\<close> and, among equal entries, the first
  in row-major order (\<open>None\<close> when \<open>S\<close> is empty).
\<close>

definition free_cell :: "real list list \<Rightarrow> nat set \<Rightarrow> nat set \<Rightarrow> nat \<Rightarrow> nat \<Rightarrow> bool" where
  "free_cell D assignedRows assignedCols r c =
     (r < length D \<and> r \<notin> assignedRows \<and> c < length (D ! r) \<and> c \<notin> assignedCols)"

definition first_min_of :: "real list list \<Rightarrow> (nat \<times> nat) set \<Rightarrow> (real \<times> nat \<times> nat) option \<Rightarrow> bool" where
  "first_min_of D S acc =
     (case acc of
        None \<Rightarrow> S = {}
      | Some (v, r, c) \<Rightarrow>
          (r, c) \<in> S \<and> v = D ! r ! c \<and>
          (\<forall>(r', c') \<in> S. v \<le> D ! r' ! c' \<and> (D ! r' ! c' = v \<longrightarrow> r < r' \<or> (r = r' \<and> c \<le> c'))))"

text \<open>The scan returns such a cell; the termination of the loop below rests on it.\<close>

lemma scan_cell_first_min:
  assumes "first_min_of D S acc" and "\<forall>(r', c') \<in> S. r' < r \<or> (r' = r \<and> c' < c)"
  shows "first_min_of D (if c \<in> set aC then S else insert (r, c) S) (scan_cell D aC r c acc)"
  using assms
  by (cases acc) (auto simp: first_min_of_def scan_cell_def split: prod.splits)

lemma scan_cells_first_min:
  assumes "first_min_of D S acc" and "\<forall>(r', c') \<in> S. r' < r"
  shows "first_min_of D (S \<union> {(r, c) | c. c < n \<and> c \<notin> set aC})
           (fold (scan_cell D aC r) [0..<n] acc)"
proof (induction n)
  case 0
  then show ?case using assms by simp
next
  case (Suc n)
  let ?S = "S \<union> {(r, c) | c. c < n \<and> c \<notin> set aC}"
  have ord: "\<forall>(r', c') \<in> ?S. r' < r \<or> (r' = r \<and> c' < n)"
    using assms(2) by auto
  have eq: "(if n \<in> set aC then ?S else insert (r, n) ?S)
              = S \<union> {(r, c) | c. c < Suc n \<and> c \<notin> set aC}"
    by (auto simp: less_Suc_eq)
  from scan_cell_first_min [OF Suc.IH ord, of aC] show ?case
    by (simp add: eq)
qed

lemma scan_rows_first_min:
  "first_min_of D {(r, c). r < m \<and> r \<notin> set aR \<and> c < length (D ! r) \<and> c \<notin> set aC}
     (fold (scan_row D aR aC) [0..<m] None)"
proof (induction m)
  case 0
  show ?case by (simp add: first_min_of_def)
next
  case (Suc m)
  let ?S = "{(r, c). r < m \<and> r \<notin> set aR \<and> c < length (D ! r) \<and> c \<notin> set aC}"
  have ord: "\<forall>(r', c') \<in> ?S. r' < m" by auto
  show ?case
  proof (cases "m \<in> set aR")
    case True
    then have "{(r, c). r < Suc m \<and> r \<notin> set aR \<and> c < length (D ! r) \<and> c \<notin> set aC} = ?S"
      by (auto simp: less_Suc_eq)
    with Suc True show ?thesis by (simp add: scan_row_def)
  next
    case False
    then have "{(r, c). r < Suc m \<and> r \<notin> set aR \<and> c < length (D ! r) \<and> c \<notin> set aC}
                 = ?S \<union> {(m, c) | c. c < length (D ! m) \<and> c \<notin> set aC}"
      by (auto simp: less_Suc_eq)
    with scan_cells_first_min [OF Suc ord, of "length (D ! m)" aC] False
    show ?thesis by (simp add: scan_row_def)
  qed
qed

lemma find_min_first_min:
  "first_min_of D {(r, c). free_cell D (set aR) (set aC) r c} (find_min D aR aC)"
  using scan_rows_first_min [of D "length D" aR aC]
  by (simp add: find_min_def free_cell_def)

lemma find_min_Some_free:
  "find_min D aR aC = Some (v, r, c) \<Longrightarrow> free_cell D (set aR) (set aC) r c \<and> v = D ! r ! c"
  using find_min_first_min [of D aR aC] by (simp add: first_min_of_def)

text \<open>
  Lines 68 to 86, the loop \<open>while (true)\<close> with its two \<open>break\<close>s. A round that does not
  stop assigns a row that was free, so the loop ends after at most \<open>length D\<close> rounds.
\<close>

function greedy_match ::
  "real list list \<Rightarrow> real \<Rightarrow> nat list \<Rightarrow> nat list \<Rightarrow> (nat \<times> nat) list \<Rightarrow> (nat \<times> nat) list" where
  "greedy_match D maxDist assignedRows assignedCols matches =
     (case find_min D assignedRows assignedCols of
        None \<Rightarrow> matches
      | Some (minVal, minR, minC) \<Rightarrow>
          if minVal > maxDist then matches
          else greedy_match D maxDist (set_add assignedRows minR) (set_add assignedCols minC)
                 (matches @ [(minR, minC)]))"
  by pat_completeness auto
termination
proof (relation "measure (\<lambda>(D, maxDist, aR, aC, ms). card ({..<length D} - set aR))")
  show "wf (measure (\<lambda>(D, maxDist, aR, aC, ms). card ({..<length D} - set aR)))" by simp
next
  fix D :: "real list list" and maxDist :: real and aR aC :: "nat list"
    and ms :: "(nat \<times> nat) list" and x2 minVal y minR minC
  assume "find_min D aR aC = Some x2" and "(minVal, y) = x2" and "(minR, minC) = y"
  then have "free_cell D (set aR) (set aC) minR minC"
    using find_min_Some_free [of D aR aC minVal minR minC] by simp
  then have r: "minR < length D" "minR \<notin> set aR" by (simp_all add: free_cell_def)
  have "{..<length D} - set (set_add aR minR) = ({..<length D} - set aR) - {minR}"
    by (auto simp: set_add_def)
  moreover have "minR \<in> {..<length D} - set aR" using r by simp
  moreover have "finite ({..<length D} - set aR)" by simp
  ultimately have "card ({..<length D} - set (set_add aR minR)) < card ({..<length D} - set aR)"
    using card_Diff1_less [of "{..<length D} - set aR" minR] by simp
  then show "((D, maxDist, set_add aR minR, set_add aC minC, ms @ [(minR, minC)]),
              (D, maxDist, aR, aC, ms))
             \<in> measure (\<lambda>(D, maxDist, aR, aC, ms). card ({..<length D} - set aR))"
    by simp
qed

text \<open>
  Lines 90 to 96, the body of \<open>matches.forEach\<close>. The row and the column of a match are
  indices of the matrix, so \<open>objectIDs ! r\<close> and \<open>inputCentroids ! c\<close> are in range.
\<close>

definition apply_match ::
  "nat list \<Rightarrow> centroid list \<Rightarrow> nat \<times> nat \<Rightarrow> nat list \<times> nat list \<times> tracker
     \<Rightarrow> nat list \<times> nat list \<times> tracker" where
  "apply_match objectIDs inputCentroids m s =
     (case m of (r, c) \<Rightarrow>
        (case s of (unmatchedRows, unmatchedCols, t) \<Rightarrow>
           (let objectID = objectIDs ! r in
            (set_delete unmatchedRows r, set_delete unmatchedCols c,
             t\<lparr>objects := map_set (objects t) objectID (inputCentroids ! c),
               disappeared := map_set (disappeared t) objectID (Count 0)\<rparr>))))"

declare greedy_match.simps [simp del]

subsection \<open>\<open>update\<close>\<close>

text \<open>
  Lines 28 to 111. \<open>update_log\<close> is \<open>update\<close> together with the ids that its
  \<open>register\<close> calls returned, in the order of the calls; \<open>update\<close> is the state it
  leaves, whose \<open>objects\<close> is the mapping the source returns.
\<close>

definition update_log :: "hypot_fn \<Rightarrow> tracker \<Rightarrow> rect list \<Rightarrow> nat list \<times> tracker" where
  "update_log hypot t rects =
     (let inputCentroids = map centroid_of rects in
      if length (objects t) = 0 then register_all t (map centroid_of rects)
      else if length rects = 0 then
        ([], fold (\<lambda>objectID t. mark_disappeared t objectID) (keys (disappeared t)) t)
      else
        (let objectIDs = keys (objects t);
             objectCentroids = map snd (objects t);
             D = dist_matrix hypot objectCentroids inputCentroids;
             matches = greedy_match D (maxDistance t) [] [] []
         in (case fold (apply_match objectIDs inputCentroids) matches
                    ([0..<length D], [0..<length inputCentroids], t) of
               (unmatchedRows, unmatchedCols, t1) \<Rightarrow>
                 (let t2 = fold (\<lambda>r t. mark_disappeared t (objectIDs ! r)) unmatchedRows t1
                  in register_all t2 (map (\<lambda>c. inputCentroids ! c) unmatchedCols)))))"

definition update :: "hypot_fn \<Rightarrow> tracker \<Rightarrow> rect list \<Rightarrow> tracker" where
  "update hypot t rects = snd (update_log hypot t rects)"

text \<open>A sequence of \<open>update\<close> calls, one per frame.\<close>

definition updates :: "hypot_fn \<Rightarrow> tracker \<Rightarrow> rect list list \<Rightarrow> tracker" where
  "updates hypot t frames = foldl (update hypot) t frames"

subsection \<open>The nearest-centroid lookup of \<open>tick\<close>\<close>

text \<open>
  Lines 191 to 195. The pair \<open>(bestId, bestDist)\<close> is \<open>None\<close> while it is
  \<open>(null, Infinity)\<close>.
\<close>

definition best_step :: "hypot_fn \<Rightarrow> centroid \<Rightarrow> nat \<times> centroid \<Rightarrow> (nat \<times> real) option \<Rightarrow> (nat \<times> real) option" where
  "best_step hypot c entry best =
     (case entry of (objectID, cent) \<Rightarrow>
        (let d = hypot (fst cent - fst c) (snd cent - snd c) in
         if less_inf d (map_option snd best) then Some (objectID, d) else best))"

definition best_id :: "hypot_fn \<Rightarrow> (nat \<times> centroid) list \<Rightarrow> centroid \<Rightarrow> nat option" where
  "best_id hypot objs c = map_option fst (fold (best_step hypot c) objs None)"

text \<open>Lines 183 to 197: the \<open>track_id\<close> of each detection, in the order of the detections.\<close>

definition tick_ids :: "hypot_fn \<Rightarrow> tracker \<Rightarrow> rect list \<Rightarrow> nat option list" where
  "tick_ids hypot t rects =
     (let objs = objects (update hypot t rects) in
      map (\<lambda>rect. best_id hypot objs (centroid_of rect)) rects)"

text \<open>
  The ids that a sequence of \<open>update\<close> calls issues, in the order of the \<open>register\<close>
  calls, frame after frame.
\<close>

fun issued :: "hypot_fn \<Rightarrow> tracker \<Rightarrow> rect list list \<Rightarrow> nat list" where
  "issued hypot t [] = []"
| "issued hypot t (rects # frames) = fst (update_log hypot t rects) @ issued hypot (update hypot t rects) frames"

subsection \<open>Notions used in the properties\<close>

text \<open>The lookups \<open>objects.get(i)\<close> and \<open>disappeared.get(i)\<close>, and the set of live ids.\<close>

definition centroid_at :: "tracker \<Rightarrow> nat \<Rightarrow> centroid option" where
  "centroid_at t i = map_get (objects t) i"

definition count_at :: "tracker \<Rightarrow> nat \<Rightarrow> count option" where
  "count_at t i = map_get (disappeared t) i"

definition live :: "tracker \<Rightarrow> nat set" where
  "live t = set (keys (objects t))"

text \<open>
  A \<open>Map\<close> holds every key once. \<open>same_keys\<close>: the two tables have the same key set.
\<close>

definition wf_maps :: "tracker \<Rightarrow> bool" where
  "wf_maps t = (distinct (keys (objects t)) \<and> distinct (keys (disappeared t)))"

definition same_keys :: "tracker \<Rightarrow> bool" where
  "same_keys t = (set (keys (objects t)) = set (keys (disappeared t)))"

text \<open>Whether one more miss takes the object with id \<open>i\<close> over the threshold.\<close>

definition aged_out :: "tracker \<Rightarrow> nat \<Rightarrow> bool" where
  "aged_out t i = exceeds (Some (plus_one (count_at t i))) (maxDisappeared t)"

text \<open>What \<open>apply_match\<close> does to the tracker.\<close>

definition commit :: "nat list \<Rightarrow> centroid list \<Rightarrow> nat \<times> nat \<Rightarrow> tracker \<Rightarrow> tracker" where
  "commit ids cents m t =
     t\<lparr>objects := map_set (objects t) (ids ! fst m) (cents ! snd m),
       disappeared := map_set (disappeared t) (ids ! fst m) (Count 0)\<rparr>"

text \<open>
  The invariant of the greedy loop: the assigned rows and columns are those of the
  matches, no row and no column is matched twice, and every match is a cell of the
  matrix within \<open>maxDist\<close>.
\<close>

definition matching ::
  "real list list \<Rightarrow> real \<Rightarrow> nat list \<Rightarrow> nat list \<Rightarrow> (nat \<times> nat) list \<Rightarrow> bool" where
  "matching D maxDist aR aC ms =
     (set aR = fst ` set ms \<and> set aC = snd ` set ms \<and>
      distinct (map fst ms) \<and> distinct (map snd ms) \<and>
      (\<forall>m \<in> set ms. fst m < length D \<and> snd m < length (D ! fst m) \<and>
                     \<not> maxDist < D ! fst m ! snd m))"

text \<open>
  The matches of the general case of \<open>update\<close> (lines 54 to 86), and the rows and
  columns left in \<open>unmatchedRows\<close> and \<open>unmatchedCols\<close> after line 96.
\<close>

definition matches_of :: "hypot_fn \<Rightarrow> tracker \<Rightarrow> rect list \<Rightarrow> (nat \<times> nat) list" where
  "matches_of hypot t rects =
     greedy_match (dist_matrix hypot (map snd (objects t)) (map centroid_of rects))
       (maxDistance t) [] [] []"

definition unmatched_rows :: "hypot_fn \<Rightarrow> tracker \<Rightarrow> rect list \<Rightarrow> nat list" where
  "unmatched_rows hypot t rects =
     filter (\<lambda>r. r \<notin> fst ` set (matches_of hypot t rects)) [0..<length (objects t)]"

definition unmatched_cols :: "hypot_fn \<Rightarrow> tracker \<Rightarrow> rect list \<Rightarrow> nat list" where
  "unmatched_cols hypot t rects =
     filter (\<lambda>c. c \<notin> snd ` set (matches_of hypot t rects)) [0..<length rects]"

text \<open>
  The invariant of the tracker: both tables are maps over the same ids, all of them
  below \<open>nextObjectID\<close>.
\<close>

definition inv :: "tracker \<Rightarrow> bool" where
  "inv t = (wf_maps t \<and> same_keys t \<and> (\<forall>i \<in> live t. i < nextObjectID t))"

text \<open>Every miss counter is a number between 0 and \<open>maxDisappeared\<close>.\<close>

definition counts_bounded :: "tracker \<Rightarrow> bool" where
  "counts_bounded t =
     (\<forall>i c. count_at t i = Some c \<longrightarrow> (\<exists>n. c = Count n \<and> int n \<le> maxDisappeared t))"

text \<open>The id that \<open>update\<close> gives to detection \<open>c\<close>: the matched object's, or a new one.\<close>

definition id_of_col :: "hypot_fn \<Rightarrow> tracker \<Rightarrow> rect list \<Rightarrow> nat \<Rightarrow> nat" where
  "id_of_col hypot t rects c =
     (if objects t = [] then nextObjectID t + c
      else (case find (\<lambda>m. snd m = c) (matches_of hypot t rects) of
              Some m \<Rightarrow> keys (objects t) ! fst m
            | None \<Rightarrow> nextObjectID t
                + length (filter (\<lambda>c. c \<notin> snd ` set (matches_of hypot t rects)) [0..<c])))"

text \<open>
  The distance between two centroids as lines 61 to 63 and 193 compute it, with the
  \<open>Math.hypot\<close> of the engine, and the Euclidean distance.
\<close>

definition code_distance :: "hypot_fn \<Rightarrow> centroid \<Rightarrow> centroid \<Rightarrow> real" where
  "code_distance hypot a b = hypot (fst a - fst b) (snd a - snd b)"

definition distance :: "centroid \<Rightarrow> centroid \<Rightarrow> real" where
  "distance a b = euclid (fst a - fst b) (snd a - snd b)"

text \<open>
  The object with id \<open>i\<close> is live and gets no detection in \<open>update t rects\<close>: the frame
  is empty, or no match is for the row of \<open>i\<close>. \<open>unmatched_run\<close>: this holds in each of
  a sequence of calls.
\<close>

definition unmatched :: "hypot_fn \<Rightarrow> tracker \<Rightarrow> rect list \<Rightarrow> nat \<Rightarrow> bool" where
  "unmatched hypot t rects i =
     (i \<in> live t \<and>
      (rects = [] \<or> (\<forall>m \<in> set (matches_of hypot t rects). keys (objects t) ! fst m \<noteq> i)))"

fun unmatched_run :: "hypot_fn \<Rightarrow> tracker \<Rightarrow> rect list list \<Rightarrow> nat \<Rightarrow> bool" where
  "unmatched_run hypot t [] i = True"
| "unmatched_run hypot t (rects # frames) i =
     (unmatched hypot t rects i \<and> unmatched_run hypot (update hypot t rects) frames i)"

text \<open>
  The greedy selection as the specification words it. \<open>first_free_min D A B r c\<close>: the cell
  \<open>(r, c)\<close> has its row outside \<open>A\<close> and its column outside \<open>B\<close>, no such cell has a smaller
  entry, and among those with an equal entry it comes first in row-major order.
  \<open>greedy_spec D maxDist A B ms ms'\<close>: starting with the rows \<open>A\<close> and the columns \<open>B\<close>
  assigned and the matches \<open>ms\<close> made, repeatedly taking the first smallest free cell,
  and stopping when there is none or its entry is greater than \<open>maxDist\<close>, ends with the
  matches \<open>ms'\<close>.
\<close>

definition first_free_min :: "real list list \<Rightarrow> nat set \<Rightarrow> nat set \<Rightarrow> nat \<Rightarrow> nat \<Rightarrow> bool" where
  "first_free_min D A B r c =
     (free_cell D A B r c \<and>
      (\<forall>r' c'. free_cell D A B r' c' \<longrightarrow>
         D ! r ! c \<le> D ! r' ! c' \<and> (D ! r' ! c' = D ! r ! c \<longrightarrow> r < r' \<or> (r = r' \<and> c \<le> c'))))"

inductive greedy_spec ::
  "real list list \<Rightarrow> real \<Rightarrow> nat set \<Rightarrow> nat set \<Rightarrow> (nat \<times> nat) list \<Rightarrow> (nat \<times> nat) list \<Rightarrow> bool"
  for D :: "real list list" and maxDist :: real where
  exhausted: "(\<And>r c. \<not> free_cell D A B r c) \<Longrightarrow> greedy_spec D maxDist A B ms ms"
| too_far: "first_free_min D A B r c \<Longrightarrow> maxDist < D ! r ! c \<Longrightarrow> greedy_spec D maxDist A B ms ms"
| take: "first_free_min D A B r c \<Longrightarrow> \<not> maxDist < D ! r ! c \<Longrightarrow>
         greedy_spec D maxDist (insert r A) (insert c B) (ms @ [(r, c)]) ms' \<Longrightarrow>
         greedy_spec D maxDist A B ms ms'"

text \<open>
  The nearest object as the specification words it: entry \<open>k\<close> of the mapping is at the
  least distance from \<open>c\<close>, and every entry before it is strictly farther.
\<close>

definition nearest_first ::
  "(centroid \<Rightarrow> centroid \<Rightarrow> real) \<Rightarrow> (nat \<times> centroid) list \<Rightarrow> centroid \<Rightarrow> nat \<Rightarrow> bool" where
  "nearest_first d objs c k =
     (k < length objs \<and>
      (\<forall>k' < length objs. d (snd (objs ! k)) c \<le> d (snd (objs ! k')) c) \<and>
      (\<forall>k' < k. d (snd (objs ! k)) c < d (snd (objs ! k')) c))"

section \<open>Properties\<close>

subsection \<open>Distances\<close>

lemma euclid_less_iff: "euclid a b < euclid c d \<longleftrightarrow> a * a + b * b < c * c + d * d"
  by (simp add: euclid_def del: of_int_add of_int_mult)

lemma euclid_gt_iff: "0 \<le> m \<Longrightarrow> m < euclid a b \<longleftrightarrow> m * m < real_of_int (a * a + b * b)"
  unfolding euclid_def
  by (metis abs_of_nonneg real_less_rsqrt real_sqrt_abs2 real_sqrt_less_iff power2_eq_square)

lemma euclid_nonneg: "0 \<le> euclid a b"
  by (simp add: euclid_def)

lemma euclid_eq_0_iff: "euclid a b = 0 \<longleftrightarrow> a = 0 \<and> b = 0"
proof -
  have "a * a + b * b = 0 \<longleftrightarrow> a = 0 \<and> b = 0"
    by (metis add.right_neutral mult_zero_left sum_squares_eq_zero_iff)
  then show ?thesis
    unfolding euclid_def real_sqrt_eq_0_iff of_int_eq_0_iff .
qed

text \<open>The equations that evaluate the model on a concrete input.\<close>

lemmas eval_defs = update_def update_log_def CentroidTracker_def register_def centroid_of_def
  round_half_def keys_def dist_matrix_def greedy_match.simps find_min_def scan_row_def
  scan_cell_def euclid_gt_iff euclid_less_iff apply_match_def set_add_def set_delete_def
  mark_disappeared_def map_get_def deregister_def map_delete_def updates_def Let_def

subsection \<open>Ids\<close>

lemma register_all_Cons:
  "fst (register_all t (c # cs)) = nextObjectID t # fst (register_all (snd (register t c)) cs)"
  "snd (register_all t (c # cs)) = snd (register_all (snd (register t c)) cs)"
  by (simp_all add: register_def Let_def split: prod.splits)

lemma nextObjectID_register [simp]:
  "nextObjectID (snd (register t c)) = Suc (nextObjectID t)"
  by (simp add: register_def Let_def)

lemma register_all_ids:
  "fst (register_all t cs) = [nextObjectID t ..< nextObjectID t + length cs] \<and>
   nextObjectID (snd (register_all t cs)) = nextObjectID t + length cs"
proof (induction cs arbitrary: t)
  case Nil
  show ?case by simp
next
  case (Cons c cs)
  have "[nextObjectID t ..< nextObjectID t + Suc (length cs)]
          = nextObjectID t # [Suc (nextObjectID t) ..< nextObjectID t + Suc (length cs)]"
    by (rule upt_conv_Cons) simp
  with Cons [of "snd (register t c)"] show ?case
    by (simp add: register_all_Cons del: upt_Suc register_all.simps)
qed

lemma nextObjectID_mark_disappeared [simp]:
  "nextObjectID (mark_disappeared t i) = nextObjectID t"
  by (simp add: mark_disappeared_def deregister_def Let_def)

lemma nextObjectID_fold_mark [simp]:
  "nextObjectID (fold (\<lambda>x t. mark_disappeared t (f x)) xs t) = nextObjectID t"
  by (induction xs arbitrary: t) simp_all

lemma nextObjectID_fold_match [simp]:
  "nextObjectID (snd (snd (fold (apply_match ids cents) ms s))) = nextObjectID (snd (snd s))"
  by (induction ms arbitrary: s) (simp_all add: apply_match_def Let_def split: prod.splits)

text \<open>The general case of \<open>update\<close>, with the three stages named.\<close>

lemma update_log_general:
  assumes "objects t \<noteq> []" and "rects \<noteq> []"
  shows "update_log hypot t rects =
     (let ids = keys (objects t); cents = map centroid_of rects;
          D = dist_matrix hypot (map snd (objects t)) cents;
          s = fold (apply_match ids cents) (greedy_match D (maxDistance t) [] [] [])
                ([0..<length D], [0..<length cents], t);
          t2 = fold (\<lambda>r t. mark_disappeared t (ids ! r)) (fst s) (snd (snd s))
      in register_all t2 (map (\<lambda>c. cents ! c) (fst (snd s))))"
  using assms by (simp add: update_log_def Let_def split: prod.splits)

lemma update_log_ids:
  "fst (update_log hypot t rects) = [nextObjectID t ..< nextObjectID (update hypot t rects)] \<and>
   nextObjectID t \<le> nextObjectID (update hypot t rects)"
proof -
  have reg: "fst (register_all u cs) = [nextObjectID u ..< nextObjectID (snd (register_all u cs))]
      \<and> nextObjectID u \<le> nextObjectID (snd (register_all u cs))" for u cs
    by (simp add: register_all_ids)
  show ?thesis
  proof (cases "objects t = []")
    case True
    then show ?thesis using reg [of t "map centroid_of rects"]
      by (simp add: update_def update_log_def)
  next
    case False
    note ne = this
    show ?thesis
    proof (cases "rects = []")
      case True
      with ne show ?thesis
        using nextObjectID_fold_mark [of "\<lambda>x. x" "keys (disappeared t)" t]
        by (simp add: update_def update_log_def)
    next
      case False
      let ?ids = "keys (objects t)" and ?cents = "map centroid_of rects"
      let ?D = "dist_matrix hypot (map snd (objects t)) ?cents"
      let ?s = "fold (apply_match ?ids ?cents) (greedy_match ?D (maxDistance t) [] [] [])
                  ([0..<length ?D], [0..<length ?cents], t)"
      let ?t2 = "fold (\<lambda>r t. mark_disappeared t (?ids ! r)) (fst ?s) (snd (snd ?s))"
      have "nextObjectID ?t2 = nextObjectID t" by simp
      then show ?thesis
        using reg [of ?t2 "map (\<lambda>c. ?cents ! c) (fst (snd ?s))"]
        by (simp add: update_def update_log_general [OF ne False] Let_def)
    qed
  qed
qed

lemma issued_range:
  "issued hypot t frames = [nextObjectID t ..< nextObjectID (updates hypot t frames)] \<and>
   nextObjectID t \<le> nextObjectID (updates hypot t frames)"
proof (induction frames arbitrary: t)
  case Nil
  show ?case by (simp add: updates_def)
next
  case (Cons rects frames)
  have u: "updates hypot t (rects # frames) = updates hypot (update hypot t rects) frames"
    by (simp add: updates_def)
  from Cons [of "update hypot t rects"] update_log_ids [of hypot t rects]
  show ?case
    unfolding u issued.simps
    by (metis le_trans upt_add_eq_append le_Suc_ex)
qed

subsection \<open>Maps\<close>

lemma map_of_map_set: "map_of (map_set m k v) = (map_of m)(k \<mapsto> v)"
  by (induction m) (auto simp: fun_eq_iff)

lemma map_of_map_delete: "map_of (map_delete m k) = (map_of m)(k := None)"
  by (induction m) (auto simp: map_delete_def fun_eq_iff)

lemma set_keys_map_set: "set (keys (map_set m k v)) = insert k (set (keys m))"
  by (induction m) (auto simp: keys_def)

lemma set_keys_map_delete: "set (keys (map_delete m k)) = set (keys m) - {k}"
  by (auto simp: keys_def map_delete_def)

lemma distinct_keys_map_set: "distinct (keys m) \<Longrightarrow> distinct (keys (map_set m k v))"
  using set_keys_map_set [of _ k v]
  by (induction m) (auto simp: keys_def)

lemma distinct_keys_map_delete: "distinct (keys m) \<Longrightarrow> distinct (keys (map_delete m k))"
  by (simp add: keys_def map_delete_def distinct_map_filter)

lemma set_keys_dom: "set (keys m) = dom (map_of m)"
  by (simp add: keys_def dom_map_of_conv_image_fst)

lemma centroid_at_eq: "centroid_at t = map_of (objects t)"
  by (simp add: fun_eq_iff centroid_at_def map_get_def)

lemma count_at_eq: "count_at t = map_of (disappeared t)"
  by (simp add: fun_eq_iff count_at_def map_get_def)

lemma live_dom: "live t = dom (centroid_at t)"
  by (simp add: live_def set_keys_dom centroid_at_eq)

lemma same_keys_dom: "same_keys t \<longleftrightarrow> dom (centroid_at t) = dom (count_at t)"
  by (simp add: same_keys_def set_keys_dom centroid_at_eq count_at_eq)

subsection \<open>What each operation does to the two tables\<close>

lemma register_effect:
  "centroid_at (snd (register t c)) = (centroid_at t)(nextObjectID t \<mapsto> c)"
  "count_at (snd (register t c)) = (count_at t)(nextObjectID t \<mapsto> Count 0)"
  "maxDisappeared (snd (register t c)) = maxDisappeared t"
  "maxDistance (snd (register t c)) = maxDistance t"
  by (simp_all add: register_def Let_def centroid_at_eq count_at_eq map_of_map_set)

lemma deregister_effect:
  "centroid_at (deregister t i) = (centroid_at t)(i := None)"
  "count_at (deregister t i) = (count_at t)(i := None)"
  "maxDisappeared (deregister t i) = maxDisappeared t"
  "maxDistance (deregister t i) = maxDistance t"
  "nextObjectID (deregister t i) = nextObjectID t"
  by (simp_all add: deregister_def centroid_at_eq count_at_eq map_of_map_delete)

lemma mark_disappeared_effect:
  "centroid_at (mark_disappeared t i) =
     (if aged_out t i then (centroid_at t)(i := None) else centroid_at t)"
  "count_at (mark_disappeared t i) =
     (if aged_out t i then (count_at t)(i := None) else (count_at t)(i \<mapsto> plus_one (count_at t i)))"
  "maxDisappeared (mark_disappeared t i) = maxDisappeared t"
  "maxDistance (mark_disappeared t i) = maxDistance t"
  by (simp_all add: mark_disappeared_def Let_def deregister_def centroid_at_eq count_at_eq
      map_get_def map_of_map_set map_of_map_delete aged_out_def)

lemma wf_maps_register: "wf_maps t \<Longrightarrow> wf_maps (snd (register t c))"
  by (simp add: wf_maps_def register_def Let_def distinct_keys_map_set)

lemma wf_maps_deregister: "wf_maps t \<Longrightarrow> wf_maps (deregister t i)"
  by (simp add: wf_maps_def deregister_def distinct_keys_map_delete)

lemma wf_maps_mark_disappeared: "wf_maps t \<Longrightarrow> wf_maps (mark_disappeared t i)"
  by (simp add: wf_maps_def mark_disappeared_def Let_def deregister_def
      distinct_keys_map_set distinct_keys_map_delete)

lemma wf_maps_fold_mark:
  "wf_maps t \<Longrightarrow> wf_maps (fold (\<lambda>x t. mark_disappeared t (f x)) xs t)"
  by (induction xs arbitrary: t) (simp_all add: wf_maps_mark_disappeared)

lemma wf_maps_register_all: "wf_maps t \<Longrightarrow> wf_maps (snd (register_all t cs))"
  by (induction cs arbitrary: t)
     (simp_all add: register_all_Cons wf_maps_register del: register_all.simps(2))

lemma wf_maps_fold_match:
  "wf_maps (snd (snd s)) \<Longrightarrow> wf_maps (snd (snd (fold (apply_match ids cents) ms s)))"
proof (induction ms arbitrary: s)
  case Nil
  then show ?case by simp
next
  case (Cons m ms)
  have "wf_maps (snd (snd (apply_match ids cents m s)))"
    using Cons.prems
    by (cases s; cases m)
       (simp add: apply_match_def Let_def wf_maps_def distinct_keys_map_set)
  then show ?case using Cons.IH by simp
qed

lemma aged_out_cong:
  "count_at t' i = count_at t i \<Longrightarrow> maxDisappeared t' = maxDisappeared t
     \<Longrightarrow> aged_out t' i = aged_out t i"
  by (simp add: aged_out_def)

lemma fold_mark_effect:
  "distinct js \<Longrightarrow>
     centroid_at (fold (\<lambda>i t. mark_disappeared t i) js t) j =
       (if j \<in> set js \<and> aged_out t j then None else centroid_at t j) \<and>
     count_at (fold (\<lambda>i t. mark_disappeared t i) js t) j =
       (if j \<in> set js then (if aged_out t j then None else Some (plus_one (count_at t j)))
        else count_at t j) \<and>
     maxDisappeared (fold (\<lambda>i t. mark_disappeared t i) js t) = maxDisappeared t \<and>
     maxDistance (fold (\<lambda>i t. mark_disappeared t i) js t) = maxDistance t"
proof (induction js arbitrary: t)
  case Nil
  show ?case by simp
next
  case (Cons a js)
  have d: "distinct js" and a: "a \<notin> set js" using Cons.prems by simp_all
  have other: "aged_out (mark_disappeared t a) j = aged_out t j" if "j \<noteq> a"
    using that by (intro aged_out_cong) (simp_all add: mark_disappeared_effect)
  show ?case
    using Cons.IH [OF d, of "mark_disappeared t a"] a other
    by (auto simp: mark_disappeared_effect)
qed

lemma apply_match_commit:
  "apply_match ids cents m (uR, uC, t) =
     (set_delete uR (fst m), set_delete uC (snd m), commit ids cents m t)"
  by (cases m) (simp add: apply_match_def commit_def Let_def)

lemma fold_apply_match:
  "fold (apply_match ids cents) ms (uR, uC, t) =
     (filter (\<lambda>r. r \<notin> fst ` set ms) uR, filter (\<lambda>c. c \<notin> snd ` set ms) uC,
      fold (commit ids cents) ms t)"
proof (induction ms arbitrary: uR uC t)
  case Nil
  show ?case by simp
next
  case (Cons m ms)
  have "filter (\<lambda>r. r \<notin> fst ` set ms) (removeAll (fst m) uR)
          = filter (\<lambda>r. r \<notin> fst ` set (m # ms)) uR" for uR
    by (induction uR) auto
  moreover have "filter (\<lambda>c. c \<notin> snd ` set ms) (removeAll (snd m) uC)
          = filter (\<lambda>c. c \<notin> snd ` set (m # ms)) uC" for uC
    by (induction uC) auto
  ultimately show ?case
    by (simp add: apply_match_commit Cons.IH set_delete_def del: set_simps image_insert)
qed

lemma commit_effect:
  "centroid_at (commit ids cents m t) = (centroid_at t)(ids ! fst m \<mapsto> cents ! snd m)"
  "count_at (commit ids cents m t) = (count_at t)(ids ! fst m \<mapsto> Count 0)"
  "maxDisappeared (commit ids cents m t) = maxDisappeared t"
  "maxDistance (commit ids cents m t) = maxDistance t"
  "nextObjectID (commit ids cents m t) = nextObjectID t"
  by (simp_all add: commit_def centroid_at_eq count_at_eq map_of_map_set)

lemma fold_commit_fields:
  "maxDisappeared (fold (commit ids cents) ms t) = maxDisappeared t"
  "maxDistance (fold (commit ids cents) ms t) = maxDistance t"
  "nextObjectID (fold (commit ids cents) ms t) = nextObjectID t"
  by (induction ms arbitrary: t) (simp_all add: commit_effect)

lemma fold_commit_other:
  assumes "\<forall>m \<in> set ms. ids ! fst m \<noteq> j"
  shows "centroid_at (fold (commit ids cents) ms t) j = centroid_at t j"
    and "count_at (fold (commit ids cents) ms t) j = count_at t j"
  using assms by (induction ms arbitrary: t) (simp_all add: commit_effect)

lemma fold_commit_hit:
  "distinct (map (\<lambda>m. ids ! fst m) ms) \<Longrightarrow> m \<in> set ms \<Longrightarrow>
     centroid_at (fold (commit ids cents) ms t) (ids ! fst m) = Some (cents ! snd m) \<and>
     count_at (fold (commit ids cents) ms t) (ids ! fst m) = Some (Count 0)"
proof (induction ms arbitrary: t)
  case Nil
  then show ?case by simp
next
  case (Cons a ms)
  show ?case
  proof (cases "m = a")
    case True
    have "ids ! fst a \<notin> (\<lambda>m. ids ! fst m) ` set ms" using Cons.prems(1) by simp
    with True have "\<forall>m' \<in> set ms. ids ! fst m' \<noteq> ids ! fst m"
      by (metis image_eqI)
    from fold_commit_other [OF this] True show ?thesis
      by (simp add: commit_effect)
  next
    case False
    with Cons.prems Cons.IH show ?thesis by simp
  qed
qed

lemma wf_maps_commit: "wf_maps t \<Longrightarrow> wf_maps (commit ids cents m t)"
  by (simp add: commit_def wf_maps_def distinct_keys_map_set)

lemma wf_maps_fold_commit: "wf_maps t \<Longrightarrow> wf_maps (fold (commit ids cents) ms t)"
  by (induction ms arbitrary: t) (simp_all add: wf_maps_commit)

lemma register_all_effect:
  "centroid_at (snd (register_all t cs)) j =
     (if nextObjectID t \<le> j \<and> j < nextObjectID t + length cs
      then Some (cs ! (j - nextObjectID t)) else centroid_at t j) \<and>
   count_at (snd (register_all t cs)) j =
     (if nextObjectID t \<le> j \<and> j < nextObjectID t + length cs
      then Some (Count 0) else count_at t j) \<and>
   maxDisappeared (snd (register_all t cs)) = maxDisappeared t \<and>
   maxDistance (snd (register_all t cs)) = maxDistance t"
proof (induction cs arbitrary: t)
  case Nil
  show ?case by auto
next
  case (Cons c cs)
  show ?case
    using Cons.IH [of "snd (register t c)"]
    by (auto simp: register_all_Cons register_effect nth_Cons' Suc_diff_le
        simp del: register_all.simps)
qed

subsection \<open>The greedy loop\<close>

lemma find_min_None_iff:
  "find_min D aR aC = None \<longleftrightarrow> (\<forall>r c. \<not> free_cell D (set aR) (set aC) r c)"
  using find_min_first_min [of D aR aC]
  by (auto simp: first_min_of_def split: option.splits)

text \<open>The loop rule: an invariant of the iterations holds when the loop stops, and then
  no free cell is within \<open>maxDist\<close>.\<close>

lemma greedy_match_rule:
  assumes "I aR aC ms"
    and "\<And>aR aC ms v r c. I aR aC ms \<Longrightarrow> find_min D aR aC = Some (v, r, c) \<Longrightarrow> \<not> maxDist < v
           \<Longrightarrow> I (set_add aR r) (set_add aC c) (ms @ [(r, c)])"
  shows "\<exists>aR' aC'. I aR' aC' (greedy_match D maxDist aR aC ms) \<and>
           (\<forall>r c. free_cell D (set aR') (set aC') r c \<longrightarrow> maxDist < D ! r ! c)"
  using assms
proof (induction D maxDist aR aC ms rule: greedy_match.induct)
  case (1 D maxDist aR aC ms)
  show ?case
  proof (cases "find_min D aR aC")
    case None
    then have "\<forall>r c. \<not> free_cell D (set aR) (set aC) r c"
      by (simp add: find_min_None_iff)
    with None "1.prems"(1) show ?thesis
      by (subst greedy_match.simps) auto
  next
    case (Some x)
    obtain v r c where x: "x = (v, r, c)" by (cases x) auto
    show ?thesis
    proof (cases "maxDist < v")
      case True
      have "maxDist < D ! r' ! c'" if "free_cell D (set aR) (set aC) r' c'" for r' c'
        using find_min_first_min [of D aR aC] Some x True that
        by (fastforce simp: first_min_of_def)
      with Some x True "1.prems"(1) show ?thesis
        by (subst greedy_match.simps) auto
    next
      case False
      have "I (set_add aR r) (set_add aC c) (ms @ [(r, c)])"
        using "1.prems"(2) [OF "1.prems"(1) _ False, of r c] Some x by simp
      from "1.IH" [OF Some x [symmetric] refl False this "1.prems"(2)] Some x False
      show ?thesis
        by (subst greedy_match.simps) simp
    qed
  qed
qed

lemma matching_step:
  assumes "matching D maxDist aR aC ms" and "find_min D aR aC = Some (v, r, c)"
    and "\<not> maxDist < v"
  shows "matching D maxDist (set_add aR r) (set_add aC c) (ms @ [(r, c)])"
proof -
  from find_min_Some_free [OF assms(2)]
  have "r < length D" "r \<notin> set aR" "c < length (D ! r)" "c \<notin> set aC" "v = D ! r ! c"
    by (simp_all add: free_cell_def)
  with assms(1,3) show ?thesis
    by (auto simp: matching_def set_add_def)
qed

lemma greedy_match_matching:
  "\<exists>aR aC. matching D maxDist aR aC (greedy_match D maxDist [] [] []) \<and>
     (\<forall>r c. free_cell D (set aR) (set aC) r c \<longrightarrow> maxDist < D ! r ! c)"
proof (rule greedy_match_rule [where I = "matching D maxDist"])
  show "matching D maxDist [] [] []" by (simp add: matching_def)
next
  fix aR aC ms v r c
  assume "matching D maxDist aR aC ms" "find_min D aR aC = Some (v, r, c)" "\<not> maxDist < v"
  then show "matching D maxDist (set_add aR r) (set_add aC c) (ms @ [(r, c)])"
    by (rule matching_step)
qed

lemma length_dist_matrix [simp]: "length (dist_matrix hypot ocs ics) = length ocs"
  by (simp add: dist_matrix_def)

lemma nth_dist_matrix:
  "r < length ocs \<Longrightarrow> c < length ics \<Longrightarrow>
     dist_matrix hypot ocs ics ! r ! c = hypot (fst (ocs ! r) - fst (ics ! c)) (snd (ocs ! r) - snd (ics ! c))"
  by (simp add: dist_matrix_def)

lemma length_nth_dist_matrix [simp]:
  "r < length ocs \<Longrightarrow> length (dist_matrix hypot ocs ics ! r) = length ics"
  by (simp add: dist_matrix_def)

text \<open>What the matcher returns in the general case of \<open>update\<close>.\<close>

lemma matches_of_props:
  "distinct (map fst (matches_of hypot t rects)) \<and> distinct (map snd (matches_of hypot t rects)) \<and>
   (\<forall>m \<in> set (matches_of hypot t rects).
      fst m < length (objects t) \<and> snd m < length rects \<and>
      \<not> maxDistance t < dist_matrix hypot (map snd (objects t)) (map centroid_of rects) ! fst m ! snd m)"
proof -
  let ?D = "dist_matrix hypot (map snd (objects t)) (map centroid_of rects)"
  obtain aR aC where m: "matching ?D (maxDistance t) aR aC (matches_of hypot t rects)"
    using greedy_match_matching [of ?D "maxDistance t"] unfolding matches_of_def by blast
  have "fst m < length (objects t) \<and> snd m < length rects \<and> \<not> maxDistance t < ?D ! fst m ! snd m"
    if "m \<in> set (matches_of hypot t rects)" for m
  proof -
    from m that have 1: "fst m < length ?D" and 2: "snd m < length (?D ! fst m)"
      and 3: "\<not> maxDistance t < ?D ! fst m ! snd m"
      unfolding matching_def by blast+
    from 1 have "fst m < length (objects t)" by simp
    with 2 3 show ?thesis by simp
  qed
  moreover from m have "distinct (map fst (matches_of hypot t rects))"
    "distinct (map snd (matches_of hypot t rects))"
    unfolding matching_def by blast+
  ultimately show ?thesis by blast
qed

lemma matches_of_maximal:
  assumes "r < length (objects t)" and "c < length rects"
    and "r \<notin> fst ` set (matches_of hypot t rects)" and "c \<notin> snd ` set (matches_of hypot t rects)"
  shows "maxDistance t < dist_matrix hypot (map snd (objects t)) (map centroid_of rects) ! r ! c"
proof -
  let ?D = "dist_matrix hypot (map snd (objects t)) (map centroid_of rects)"
  obtain aR aC where m: "matching ?D (maxDistance t) aR aC (matches_of hypot t rects)"
    and f: "\<And>r c. free_cell ?D (set aR) (set aC) r c \<Longrightarrow> maxDistance t < ?D ! r ! c"
    using greedy_match_matching [of ?D "maxDistance t"] unfolding matches_of_def by blast
  from m have "set aR = fst ` set (matches_of hypot t rects)" "set aC = snd ` set (matches_of hypot t rects)"
    unfolding matching_def by blast+
  with assms have "free_cell ?D (set aR) (set aC) r c"
    by (simp add: free_cell_def)
  then show ?thesis by (rule f)
qed

subsection \<open>The three cases of \<open>update\<close>\<close>

lemma update_first: "objects t = [] \<Longrightarrow> update hypot t rects = snd (register_all t (map centroid_of rects))"
  by (simp add: update_def update_log_def)

lemma update_empty:
  "objects t \<noteq> [] \<Longrightarrow> update hypot t [] = fold (\<lambda>i t. mark_disappeared t i) (keys (disappeared t)) t"
  by (simp add: update_def update_log_def)

lemma update_general:
  assumes "objects t \<noteq> []" and "rects \<noteq> []"
  shows "update hypot t rects =
     snd (register_all
           (fold (\<lambda>i t. mark_disappeared t i)
              (map (\<lambda>r. keys (objects t) ! r) (unmatched_rows hypot t rects))
              (fold (commit (keys (objects t)) (map centroid_of rects)) (matches_of hypot t rects) t))
           (map (\<lambda>c. map centroid_of rects ! c) (unmatched_cols hypot t rects)))"
  by (simp add: update_def update_log_general [OF assms] Let_def fold_apply_match fold_map
      unmatched_rows_def unmatched_cols_def matches_of_def comp_def)

lemma keys_nth_inj:
  assumes "wf_maps t" and "r < length (objects t)" and "r' < length (objects t)"
  shows "keys (objects t) ! r = keys (objects t) ! r' \<longleftrightarrow> r = r'"
proof -
  have "distinct (keys (objects t))" using assms(1) by (simp add: wf_maps_def)
  moreover have "length (keys (objects t)) = length (objects t)" by (simp add: keys_def)
  ultimately show ?thesis using assms(2,3) by (simp add: nth_eq_iff_index_eq)
qed

lemma keys_nth_live: "r < length (objects t) \<Longrightarrow> keys (objects t) ! r \<in> live t"
  by (simp add: live_def keys_def)

lemma live_nth: "i \<in> live t \<Longrightarrow> \<exists>r < length (objects t). keys (objects t) ! r = i"
  by (metis in_set_conv_nth keys_def length_map live_def)

lemma distinct_matched_ids:
  assumes "wf_maps t"
  shows "distinct (map (\<lambda>m. keys (objects t) ! fst m) (matches_of hypot t rects))"
proof -
  let ?ms = "matches_of hypot t rects"
  have d: "distinct (map fst ?ms)" and rng: "\<And>m. m \<in> set ?ms \<Longrightarrow> fst m < length (objects t)"
    using matches_of_props [of hypot t rects] by blast+
  from d have dm: "distinct ?ms" and inj: "inj_on fst (set ?ms)"
    by (simp_all add: distinct_map)
  have "inj_on (\<lambda>m. keys (objects t) ! fst m) (set ?ms)"
  proof (rule inj_onI)
    fix m m' assume m: "m \<in> set ?ms" "m' \<in> set ?ms"
      and eq: "keys (objects t) ! fst m = keys (objects t) ! fst m'"
    from keys_nth_inj [OF assms rng [OF m(1)] rng [OF m(2)]] eq have "fst m = fst m'" by simp
    with inj m show "m = m'" by (simp add: inj_on_def)
  qed
  with dm show ?thesis by (simp add: distinct_map)
qed

lemma distinct_unmatched_ids:
  assumes "wf_maps t"
  shows "distinct (map (\<lambda>r. keys (objects t) ! r) (unmatched_rows hypot t rects))"
proof -
  have "inj_on (\<lambda>r. keys (objects t) ! r) (set (unmatched_rows hypot t rects))"
    using keys_nth_inj [OF assms] by (auto simp: inj_on_def unmatched_rows_def)
  then show ?thesis by (simp add: distinct_map unmatched_rows_def)
qed

text \<open>The general case: a matched object.\<close>

lemma update_matched:
  assumes "inv t" and "objects t \<noteq> []" and "rects \<noteq> []" and "m \<in> set (matches_of hypot t rects)"
  shows "centroid_at (update hypot t rects) (keys (objects t) ! fst m)
           = Some (centroid_of (rects ! snd m)) \<and>
         count_at (update hypot t rects) (keys (objects t) ! fst m) = Some (Count 0)"
proof -
  let ?ids = "keys (objects t)" and ?cents = "map centroid_of rects"
  let ?t1 = "fold (commit ?ids ?cents) (matches_of hypot t rects) t"
  let ?js = "map (\<lambda>r. ?ids ! r) (unmatched_rows hypot t rects)"
  let ?t2 = "fold (\<lambda>i t. mark_disappeared t i) ?js ?t1"
  let ?j = "?ids ! fst m"
  have wf: "wf_maps t" using assms(1) by (simp add: inv_def)
  have r: "fst m < length (objects t)" and c: "snd m < length rects"
    using matches_of_props [of hypot t rects] assms(4) by auto
  have old: "?j < nextObjectID t"
    using assms(1) keys_nth_live [OF r] by (simp add: inv_def)
  have 1: "centroid_at ?t1 ?j = Some (?cents ! snd m) \<and> count_at ?t1 ?j = Some (Count 0)"
    by (rule fold_commit_hit [OF distinct_matched_ids [OF wf] assms(4)])
  have "?j \<notin> set ?js"
  proof
    assume "?j \<in> set ?js"
    then obtain r' where r': "r' \<in> set (unmatched_rows hypot t rects)" "?ids ! r' = ?j" by auto
    then have "r' < length (objects t)" "r' \<notin> fst ` set (matches_of hypot t rects)"
      by (simp_all add: unmatched_rows_def)
    with keys_nth_inj [OF wf _ r, of r'] r'(2) assms(4) show False by auto
  qed
  with fold_mark_effect [where js = ?js and t = ?t1 and j = ?j,
      OF distinct_unmatched_ids [OF wf]] 1
  have 2: "centroid_at ?t2 ?j = Some (?cents ! snd m) \<and> count_at ?t2 ?j = Some (Count 0)"
    by simp
  show ?thesis
    using 2 old c
    by (simp add: update_general [OF assms(2,3)] register_all_effect fold_commit_fields)
qed

text \<open>The general case: an object that no detection was matched to.\<close>

lemma update_unmatched_row:
  assumes "inv t" and "objects t \<noteq> []" and "rects \<noteq> []"
    and "r < length (objects t)" and "r \<notin> fst ` set (matches_of hypot t rects)"
  shows "centroid_at (update hypot t rects) (keys (objects t) ! r)
           = (if aged_out t (keys (objects t) ! r) then None
              else centroid_at t (keys (objects t) ! r)) \<and>
         count_at (update hypot t rects) (keys (objects t) ! r)
           = (if aged_out t (keys (objects t) ! r) then None
              else Some (plus_one (count_at t (keys (objects t) ! r))))"
proof -
  let ?ids = "keys (objects t)" and ?cents = "map centroid_of rects"
  let ?t1 = "fold (commit ?ids ?cents) (matches_of hypot t rects) t"
  let ?js = "map (\<lambda>r. ?ids ! r) (unmatched_rows hypot t rects)"
  let ?t2 = "fold (\<lambda>i t. mark_disappeared t i) ?js ?t1"
  let ?j = "?ids ! r"
  have wf: "wf_maps t" using assms(1) by (simp add: inv_def)
  have old: "?j < nextObjectID t"
    using assms(1) keys_nth_live [OF assms(4)] by (simp add: inv_def)
  have "\<forall>m \<in> set (matches_of hypot t rects). ?ids ! fst m \<noteq> ?j"
  proof
    fix m assume m: "m \<in> set (matches_of hypot t rects)"
    then have "fst m < length (objects t)" using matches_of_props [of hypot t rects] by blast
    from keys_nth_inj [OF wf this assms(4)] m assms(5) show "?ids ! fst m \<noteq> ?j" by auto
  qed
  from fold_commit_other [OF this]
  have 1: "centroid_at ?t1 ?j = centroid_at t ?j" "count_at ?t1 ?j = count_at t ?j" by simp_all
  then have a: "aged_out ?t1 ?j = aged_out t ?j"
    by (intro aged_out_cong) (simp_all add: fold_commit_fields)
  have "r \<in> set (unmatched_rows hypot t rects)"
    using assms(4,5) by (simp add: unmatched_rows_def)
  then have "?j \<in> set ?js" by simp
  with fold_mark_effect [where js = ?js and t = ?t1 and j = ?j,
      OF distinct_unmatched_ids [OF wf]] 1 a
  have 2: "centroid_at ?t2 ?j = (if aged_out t ?j then None else centroid_at t ?j) \<and>
           count_at ?t2 ?j = (if aged_out t ?j then None else Some (plus_one (count_at t ?j)))"
    by simp
  show ?thesis
    using 2 old
    by (simp add: update_general [OF assms(2,3)] register_all_effect fold_commit_fields)
qed

text \<open>The general case: a detection that was matched to no object.\<close>

lemma update_new:
  assumes "objects t \<noteq> []" and "rects \<noteq> []" and "k < length (unmatched_cols hypot t rects)"
  shows "centroid_at (update hypot t rects) (nextObjectID t + k)
           = Some (centroid_of (rects ! (unmatched_cols hypot t rects ! k))) \<and>
         count_at (update hypot t rects) (nextObjectID t + k) = Some (Count 0)"
proof -
  have "unmatched_cols hypot t rects ! k \<in> set (unmatched_cols hypot t rects)"
    using assms(3) by simp
  then have "unmatched_cols hypot t rects ! k < length rects"
    by (simp add: unmatched_cols_def)
  with assms(3) show ?thesis
    by (simp add: update_general [OF assms(1,2)] register_all_effect fold_commit_fields)
qed

text \<open>The general case: an id that is neither live nor new.\<close>

lemma update_other:
  assumes "inv t" and "objects t \<noteq> []" and "rects \<noteq> []" and "j \<notin> live t"
    and "\<not> (nextObjectID t \<le> j \<and> j < nextObjectID t + length (unmatched_cols hypot t rects))"
  shows "centroid_at (update hypot t rects) j = None \<and> count_at (update hypot t rects) j = None"
proof -
  let ?ids = "keys (objects t)" and ?cents = "map centroid_of rects"
  let ?t1 = "fold (commit ?ids ?cents) (matches_of hypot t rects) t"
  let ?js = "map (\<lambda>r. ?ids ! r) (unmatched_rows hypot t rects)"
  let ?t2 = "fold (\<lambda>i t. mark_disappeared t i) ?js ?t1"
  have wf: "wf_maps t" using assms(1) by (simp add: inv_def)
  have none: "centroid_at t j = None" "count_at t j = None"
    using assms(1,4) by (auto simp: inv_def live_dom same_keys_dom)
  have "\<forall>m \<in> set (matches_of hypot t rects). ?ids ! fst m \<noteq> j"
    using matches_of_props [of hypot t rects] keys_nth_live [of _ t] assms(4) by blast
  from fold_commit_other [OF this] none
  have 1: "centroid_at ?t1 j = None" "count_at ?t1 j = None" by simp_all
  have "j \<notin> set ?js"
    using keys_nth_live [of _ t] assms(4) by (auto simp: unmatched_rows_def)
  with fold_mark_effect [where js = ?js and t = ?t1 and j = j,
      OF distinct_unmatched_ids [OF wf]] 1
  have 2: "centroid_at ?t2 j = None \<and> count_at ?t2 j = None"
    by simp
  show ?thesis
    using 2 assms(5)
    by (simp add: update_general [OF assms(2,3)] register_all_effect fold_commit_fields)
qed

lemma fold_mark_fields:
  "maxDisappeared (fold (\<lambda>i t. mark_disappeared t i) js t) = maxDisappeared t"
  "maxDistance (fold (\<lambda>i t. mark_disappeared t i) js t) = maxDistance t"
  by (induction js arbitrary: t) (simp_all add: mark_disappeared_effect)

lemma update_general_fields:
  assumes "objects t \<noteq> []" and "rects \<noteq> []"
  shows "nextObjectID (update hypot t rects) = nextObjectID t + length (unmatched_cols hypot t rects)"
    and "maxDisappeared (update hypot t rects) = maxDisappeared t"
    and "maxDistance (update hypot t rects) = maxDistance t"
  by (simp_all add: update_general [OF assms] register_all_effect register_all_ids
      fold_commit_fields fold_mark_fields)

subsection \<open>Invariants of \<open>update\<close>\<close>

lemma wf_maps_update: "wf_maps t \<Longrightarrow> wf_maps (update hypot t rects)"
proof (cases "objects t = []")
  case True
  assume "wf_maps t"
  with True show ?thesis by (simp add: update_first wf_maps_register_all)
next
  case False
  assume wf: "wf_maps t"
  show ?thesis
  proof (cases "rects = []")
    case True
    with False wf show ?thesis
      using wf_maps_fold_mark [of t "\<lambda>i. i"] by (simp add: update_empty)
  next
    case ne: False
    show ?thesis
      using wf wf_maps_fold_mark [of _ "\<lambda>i. i"]
      by (simp add: update_general [OF False ne] wf_maps_register_all wf_maps_fold_commit)
  qed
qed

lemma same_keys_iff: "same_keys t \<longleftrightarrow> (\<forall>j. centroid_at t j = None \<longleftrightarrow> count_at t j = None)"
proof -
  have "dom (centroid_at t) = dom (count_at t)
          \<longleftrightarrow> (\<forall>j. j \<in> dom (centroid_at t) \<longleftrightarrow> j \<in> dom (count_at t))"
    by blast
  also have "\<dots> \<longleftrightarrow> (\<forall>j. centroid_at t j = None \<longleftrightarrow> count_at t j = None)"
    by (simp only: domIff Not_eq_iff)
  finally show ?thesis by (simp only: same_keys_dom)
qed

lemma same_keys_register_all:
  "same_keys t \<Longrightarrow> same_keys (snd (register_all t cs))"
  by (simp add: same_keys_iff register_all_effect)

lemma same_keys_fold_mark:
  assumes "same_keys t" and "distinct js" and "set js \<subseteq> live t"
  shows "same_keys (fold (\<lambda>i t. mark_disappeared t i) js t)"
proof -
  have "centroid_at t j \<noteq> None" if "j \<in> set js" for j
    using assms(3) that by (auto simp: live_dom)
  with assms(1) show ?thesis
    by (auto simp: same_keys_iff fold_mark_effect [OF assms(2)])
qed

lemma fold_commit_dom:
  "dom (centroid_at (fold (commit ids cents) ms t))
     = dom (centroid_at t) \<union> (\<lambda>m. ids ! fst m) ` set ms \<and>
   dom (count_at (fold (commit ids cents) ms t))
     = dom (count_at t) \<union> (\<lambda>m. ids ! fst m) ` set ms"
  by (induction ms arbitrary: t) (auto simp: commit_effect)

lemma same_keys_fold_commit:
  "same_keys t \<Longrightarrow> same_keys (fold (commit ids cents) ms t)"
  by (simp add: same_keys_dom fold_commit_dom)

lemma live_fold_commit:
  assumes "\<forall>m \<in> set ms. ids ! fst m \<in> live t"
  shows "live (fold (commit ids cents) ms t) = live t"
  using assms by (auto simp: live_dom fold_commit_dom)

lemma same_keys_update:
  assumes "wf_maps t" and "same_keys t"
  shows "same_keys (update hypot t rects)"
proof (cases "objects t = []")
  case True
  with assms(2) show ?thesis by (simp add: update_first same_keys_register_all)
next
  case False
  show ?thesis
  proof (cases "rects = []")
    case True
    have "distinct (keys (disappeared t))" using assms(1) by (simp add: wf_maps_def)
    moreover have "set (keys (disappeared t)) \<subseteq> live t"
      using assms(2) by (simp add: same_keys_def live_def)
    ultimately show ?thesis
      using True False assms(2) by (simp add: update_empty same_keys_fold_mark)
  next
    case ne: False
    let ?ids = "keys (objects t)" and ?cents = "map centroid_of rects"
    let ?t1 = "fold (commit ?ids ?cents) (matches_of hypot t rects) t"
    let ?js = "map (\<lambda>r. ?ids ! r) (unmatched_rows hypot t rects)"
    have m: "\<forall>m \<in> set (matches_of hypot t rects). ?ids ! fst m \<in> live t"
      using matches_of_props [of hypot t rects] keys_nth_live [of _ t] by blast
    have "set ?js \<subseteq> live ?t1"
      using keys_nth_live [of _ t] by (auto simp: live_fold_commit [OF m] unmatched_rows_def)
    with same_keys_fold_commit [OF assms(2)] distinct_unmatched_ids [OF assms(1)]
    have "same_keys (fold (\<lambda>i t. mark_disappeared t i) ?js ?t1)"
      by (intro same_keys_fold_mark)
    then show ?thesis
      by (simp add: update_general [OF False ne] same_keys_register_all)
  qed
qed

lemma same_keys_register: "same_keys t \<Longrightarrow> same_keys (snd (register t c))"
  by (simp add: same_keys_dom register_effect)

lemma same_keys_deregister: "same_keys t \<Longrightarrow> same_keys (deregister t i)"
  by (simp add: same_keys_dom deregister_effect)

lemma update_fields:
  "maxDisappeared (update hypot t rects) = maxDisappeared t \<and>
   maxDistance (update hypot t rects) = maxDistance t"
proof (cases "objects t = []")
  case True
  then show ?thesis by (simp add: update_first register_all_effect)
next
  case False
  then show ?thesis
    by (cases "rects = []") (simp_all add: update_empty fold_mark_fields update_general_fields)
qed

lemma nextObjectID_update_le: "nextObjectID t \<le> nextObjectID (update hypot t rects)"
  using update_log_ids [of hypot t rects] by simp

lemma live_fold_mark_subset:
  "live (fold (\<lambda>i t. mark_disappeared t i) js t) \<subseteq> live t"
proof (induction js arbitrary: t)
  case Nil
  show ?case by simp
next
  case (Cons a js)
  have "live (mark_disappeared t a) \<subseteq> live t"
    by (auto simp: live_dom mark_disappeared_effect split: if_splits)
  with Cons [of "mark_disappeared t a"] show ?case by auto
qed

lemma live_register_all:
  "live (snd (register_all t cs)) = live t \<union> {nextObjectID t ..< nextObjectID t + length cs}"
  by (auto simp: live_dom register_all_effect split: if_splits)

lemma live_update_subset:
  "live (update hypot t rects) \<subseteq> live t \<union> {nextObjectID t ..< nextObjectID (update hypot t rects)}"
proof (cases "objects t = []")
  case True
  then show ?thesis
    by (simp add: update_first live_register_all register_all_ids)
next
  case False
  show ?thesis
  proof (cases "rects = []")
    case True
    with False show ?thesis
      using live_fold_mark_subset [of "keys (disappeared t)" t] by (auto simp: update_empty)
  next
    case ne: False
    let ?ids = "keys (objects t)" and ?cents = "map centroid_of rects"
    let ?t1 = "fold (commit ?ids ?cents) (matches_of hypot t rects) t"
    let ?js = "map (\<lambda>r. ?ids ! r) (unmatched_rows hypot t rects)"
    let ?t2 = "fold (\<lambda>i t. mark_disappeared t i) ?js ?t1"
    have m: "\<forall>m \<in> set (matches_of hypot t rects). ?ids ! fst m \<in> live t"
      using matches_of_props [of hypot t rects] keys_nth_live [of _ t] by blast
    have "live ?t2 \<subseteq> live t"
      using live_fold_mark_subset [of ?js ?t1] by (simp add: live_fold_commit [OF m])
    moreover have "nextObjectID ?t2 = nextObjectID t"
      by (simp add: fold_commit_fields)
    ultimately show ?thesis
      unfolding update_general [OF False ne] live_register_all
      by (auto simp: register_all_ids)
  qed
qed

lemma inv_update:
  assumes "inv t"
  shows "inv (update hypot t rects)"
proof -
  have "i < nextObjectID (update hypot t rects)" if "i \<in> live (update hypot t rects)" for i
    using live_update_subset [of hypot t rects] that assms nextObjectID_update_le [of t hypot rects]
    by (fastforce simp: inv_def)
  with assms show ?thesis
    by (simp add: inv_def wf_maps_update same_keys_update)
qed

lemma inv_CentroidTracker: "inv (CentroidTracker a b)"
  by (simp add: inv_def wf_maps_def same_keys_def live_def keys_def CentroidTracker_def)

lemma updates_snoc: "updates hypot t (frames @ [rects]) = update hypot (updates hypot t frames) rects"
  by (simp add: updates_def)

lemma inv_updates: "inv t \<Longrightarrow> inv (updates hypot t frames)"
  by (induction frames rule: rev_induct) (simp_all add: updates_def inv_update)

lemma updates_fields:
  "maxDisappeared (updates hypot t frames) = maxDisappeared t \<and>
   maxDistance (updates hypot t frames) = maxDistance t"
  by (induction frames rule: rev_induct) (simp_all add: updates_def update_fields)

text \<open>In the general case an id is new, or matched, or live and unmatched, or absent.\<close>

lemma update_id_cases:
  obtains (New) k where "k < length (unmatched_cols hypot t rects)" and "j = nextObjectID t + k"
  | (Matched) m where "m \<in> set (matches_of hypot t rects)" and "j = keys (objects t) ! fst m"
  | (Unmatched) r where "r < length (objects t)" and "r \<notin> fst ` set (matches_of hypot t rects)"
      and "j = keys (objects t) ! r"
  | (Other) "j \<notin> live t"
      and "\<not> (nextObjectID t \<le> j \<and> j < nextObjectID t + length (unmatched_cols hypot t rects))"
proof (cases "nextObjectID t \<le> j \<and> j < nextObjectID t + length (unmatched_cols hypot t rects)")
  case True
  then have "j - nextObjectID t < length (unmatched_cols hypot t rects)"
    and "j = nextObjectID t + (j - nextObjectID t)" by auto
  then show ?thesis by (rule New)
next
  case new: False
  show ?thesis
  proof (cases "j \<in> live t")
    case False
    then show ?thesis using new by (rule Other)
  next
    case True
    then obtain r where r: "r < length (objects t)" "keys (objects t) ! r = j"
      using live_nth by blast
    show ?thesis
    proof (cases "r \<in> fst ` set (matches_of hypot t rects)")
      case True
      then obtain m where "m \<in> set (matches_of hypot t rects)" "fst m = r" by auto
      with r show ?thesis by (intro Matched [of m]) simp_all
    next
      case False
      with r show ?thesis by (intro Unmatched [of r]) simp_all
    qed
  qed
qed

lemma not_aged_out_bounded:
  assumes "counts_bounded t" and "count_at t j \<noteq> None" and "\<not> aged_out t j"
  shows "\<exists>n. plus_one (count_at t j) = Count n \<and> int n \<le> maxDisappeared t"
proof -
  from assms(1,2) obtain n where "count_at t j = Some (Count n)"
    by (auto simp: counts_bounded_def)
  with assms(3) show ?thesis by (simp add: aged_out_def)
qed

lemma counts_bounded_update:
  assumes "inv t" and "counts_bounded t" and "0 \<le> maxDisappeared t"
  shows "counts_bounded (update hypot t rects)"
  unfolding counts_bounded_def
proof (intro allI impI)
  fix j c assume c: "count_at (update hypot t rects) j = Some c"
  have wf: "wf_maps t" and sk: "same_keys t" using assms(1) by (simp_all add: inv_def)
  have md: "maxDisappeared (update hypot t rects) = maxDisappeared t" by (simp add: update_fields)
  have old: "\<exists>n. c = Count n \<and> int n \<le> maxDisappeared t" if "count_at t j = Some c"
    using assms(2) that by (simp add: counts_bounded_def)
  have zero: "\<exists>n. c = Count n \<and> int n \<le> maxDisappeared t" if "c = Count 0"
    using assms(3) that by simp
  have "\<exists>n. c = Count n \<and> int n \<le> maxDisappeared t"
  proof (cases "objects t = []")
    case True
    with c old zero show ?thesis
      by (auto simp: update_first register_all_effect split: if_splits)
  next
    case False
    show ?thesis
    proof (cases "rects = []")
      case True
      have d: "distinct (keys (disappeared t))" using wf by (simp add: wf_maps_def)
      show ?thesis
      proof (cases "j \<in> set (keys (disappeared t))")
        case True
        then have "count_at t j \<noteq> None"
          by (simp add: set_keys_dom count_at_eq domIff)
        with c True \<open>rects = []\<close> False not_aged_out_bounded [OF assms(2), of j]
        show ?thesis
          by (auto simp: update_empty fold_mark_effect [OF d] split: if_splits)
      next
        case False
        with c \<open>rects = []\<close> \<open>objects t \<noteq> []\<close> old show ?thesis
          by (simp add: update_empty fold_mark_effect [OF d])
      qed
    next
      case ne: False
      show ?thesis
      proof (cases rule: update_id_cases [of hypot t rects j])
        case (New k)
        with update_new [OF False ne New(1)] c zero show ?thesis by simp
      next
        case (Matched m)
        with update_matched [OF assms(1) False ne Matched(1)] c zero show ?thesis by simp
      next
        case (Unmatched r)
        have "count_at t j \<noteq> None"
          using keys_nth_live [OF Unmatched(1)] sk Unmatched(3)
          by (auto simp: live_dom same_keys_dom)
        with update_unmatched_row [OF assms(1) False ne Unmatched(1,2)] c Unmatched(3)
          not_aged_out_bounded [OF assms(2), of j]
        show ?thesis by (auto split: if_splits)
      next
        case Other
        with update_other [OF assms(1) False ne Other] c show ?thesis by simp
      qed
    qed
  qed
  then show "\<exists>n. c = Count n \<and> int n \<le> maxDisappeared (update hypot t rects)"
    by (simp add: md)
qed

subsection \<open>Every detection gets an object\<close>

lemma nth_filter_upt:
  assumes "c < n" and "P c"
  shows "length (filter P [0..<c]) < length (filter P [0..<n]) \<and>
         filter P [0..<n] ! length (filter P [0..<c]) = c"
proof -
  have "[0..<n] = [0..<c] @ c # [Suc c..<n]"
    using assms(1) by (metis upt_add_eq_append upt_conv_Cons le_add_diff_inverse less_imp_le_nat zero_le)
  then have "filter P [0..<n] = filter P [0..<c] @ c # filter P [Suc c..<n]"
    using assms(2) by simp
  then show ?thesis by (simp add: nth_append)
qed

lemma matched_col:
  assumes "c \<in> snd ` set (matches_of hypot t rects)"
  obtains m where "m \<in> set (matches_of hypot t rects)" and "snd m = c"
  using assms by auto

lemma find_matched:
  "find (\<lambda>m. snd m = c) (matches_of hypot t rects) = Some m
     \<Longrightarrow> m \<in> set (matches_of hypot t rects) \<and> snd m = c"
  by (auto simp: find_Some_iff)

lemma find_unmatched:
  "find (\<lambda>m. snd m = c) (matches_of hypot t rects) = None \<Longrightarrow> c \<notin> snd ` set (matches_of hypot t rects)"
  by (auto simp: find_None_iff)

lemma id_of_col_centroid:
  assumes "inv t" and "c < length rects"
  shows "centroid_at (update hypot t rects) (id_of_col hypot t rects c) = Some (centroid_of (rects ! c)) \<and>
         count_at (update hypot t rects) (id_of_col hypot t rects c) = Some (Count 0)"
proof (cases "objects t = []")
  case True
  with assms(2) show ?thesis
    by (simp add: id_of_col_def update_first register_all_effect)
next
  case False
  have ne: "rects \<noteq> []" using assms(2) by auto
  show ?thesis
  proof (cases "find (\<lambda>m. snd m = c) (matches_of hypot t rects)")
    case (Some m)
    from find_matched [OF Some] update_matched [OF assms(1) False ne, of m] Some False
    show ?thesis by (simp add: id_of_col_def)
  next
    case None
    let ?P = "\<lambda>c. c \<notin> snd ` set (matches_of hypot t rects)"
    from nth_filter_upt [OF assms(2), of ?P] find_unmatched [OF None]
    have k: "length (filter ?P [0..<c]) < length (unmatched_cols hypot t rects)"
      "unmatched_cols hypot t rects ! length (filter ?P [0..<c]) = c"
      by (simp_all add: unmatched_cols_def)
    from update_new [OF False ne k(1)] k(2) None False
    show ?thesis by (simp add: id_of_col_def)
  qed
qed

lemma id_of_col_inj:
  assumes "inv t"
  shows "inj_on (id_of_col hypot t rects) {..<length rects}"
proof (cases "objects t = []")
  case True
  then show ?thesis by (simp add: inj_on_def id_of_col_def)
next
  case False
  have wf: "wf_maps t" using assms by (simp add: inv_def)
  let ?P = "\<lambda>c. c \<notin> snd ` set (matches_of hypot t rects)"
  let ?ms = "matches_of hypot t rects"
  have rng: "\<And>m. m \<in> set ?ms \<Longrightarrow> fst m < length (objects t)"
    using matches_of_props [of hypot t rects] by blast
  have "distinct (map fst ?ms)" using matches_of_props [of hypot t rects] by blast
  then have inj_fst: "inj_on fst (set ?ms)" by (simp only: distinct_map)
  have old: "keys (objects t) ! fst m < nextObjectID t" if "m \<in> set ?ms" for m
    using assms keys_nth_live [OF rng [OF that]] by (simp add: inv_def)
  show ?thesis
  proof (rule inj_onI)
    fix c c' assume c: "c \<in> {..<length rects}" "c' \<in> {..<length rects}"
      and eq: "id_of_col hypot t rects c = id_of_col hypot t rects c'"
    show "c = c'"
    proof (cases "find (\<lambda>m. snd m = c) ?ms")
      case (Some m)
      note m = find_matched [OF Some]
      show ?thesis
      proof (cases "find (\<lambda>m. snd m = c') ?ms")
        case Some': (Some m')
        note m' = find_matched [OF Some']
        from eq Some Some' False have "keys (objects t) ! fst m = keys (objects t) ! fst m'"
          by (simp add: id_of_col_def)
        with keys_nth_inj [OF wf rng [of m] rng [of m']] m m' have "fst m = fst m'" by blast
        with inj_fst m m' have "m = m'" by (meson inj_onD)
        with m m' show ?thesis by blast
      next
        case None
        with eq Some False have "keys (objects t) ! fst m \<ge> nextObjectID t"
          by (simp add: id_of_col_def)
        with old [of m] m show ?thesis by simp
      qed
    next
      case None
      note u = find_unmatched [OF None]
      show ?thesis
      proof (cases "find (\<lambda>m. snd m = c') ?ms")
        case (Some m')
        note m' = find_matched [OF Some]
        from eq Some None False have "keys (objects t) ! fst m' \<ge> nextObjectID t"
          by (simp add: id_of_col_def)
        with old [of m'] m' show ?thesis by simp
      next
        case None': None
        note u' = find_unmatched [OF None']
        from eq None None' False
        have len: "length (filter ?P [0..<c]) = length (filter ?P [0..<c'])"
          by (simp add: id_of_col_def)
        have a: "filter ?P [0..<length rects] ! length (filter ?P [0..<c]) = c"
          using nth_filter_upt [of c "length rects" ?P] c(1) u by simp
        have b: "filter ?P [0..<length rects] ! length (filter ?P [0..<c']) = c'"
          using nth_filter_upt [of c' "length rects" ?P] c(2) u' by simp
        show ?thesis by (rule trans [OF a [unfolded len, symmetric] b])
      qed
    qed
  qed
qed

subsection \<open>Unmatched objects and far detections\<close>

lemma dist_matrix_distance:
  "r < length ocs \<Longrightarrow> c < length ics \<Longrightarrow> dist_matrix hypot ocs ics ! r ! c = code_distance hypot (ocs ! r) (ics ! c)"
  by (simp add: nth_dist_matrix code_distance_def)

lemma centroid_at_nth:
  assumes "wf_maps t" and "r < length (objects t)"
  shows "centroid_at t (keys (objects t) ! r) = Some (snd (objects t ! r))"
proof -
  have "distinct (map fst (objects t))" using assms(1) by (simp add: wf_maps_def keys_def)
  moreover have "(fst (objects t ! r), snd (objects t ! r)) \<in> set (objects t)"
    using assms(2) by simp
  ultimately have "map_of (objects t) (fst (objects t ! r)) = Some (snd (objects t ! r))"
    by (rule map_of_is_SomeI)
  with assms(2) show ?thesis by (simp add: centroid_at_eq keys_def)
qed

lemma match_within:
  assumes "wf_maps t" and "m \<in> set (matches_of hypot t rects)"
  shows "\<exists>c. centroid_at t (keys (objects t) ! fst m) = Some c \<and>
             \<not> maxDistance t < code_distance hypot c (centroid_of (rects ! snd m))"
proof -
  from matches_of_props [of hypot t rects] assms(2)
  have r: "fst m < length (objects t)" and c: "snd m < length rects"
    and d: "\<not> maxDistance t < dist_matrix hypot (map snd (objects t)) (map centroid_of rects) ! fst m ! snd m"
    by blast+
  from d r c have "\<not> maxDistance t < code_distance hypot (snd (objects t ! fst m)) (centroid_of (rects ! snd m))"
    by (simp add: dist_matrix_distance)
  with centroid_at_nth [OF assms(1) r] show ?thesis by simp
qed

lemma update_unmatched:
  assumes "inv t" and "unmatched hypot t rects i"
  shows "centroid_at (update hypot t rects) i = (if aged_out t i then None else centroid_at t i) \<and>
         count_at (update hypot t rects) i
           = (if aged_out t i then None else Some (plus_one (count_at t i)))"
proof -
  have wf: "wf_maps t" and sk: "same_keys t" using assms(1) by (simp_all add: inv_def)
  have i: "i \<in> live t" using assms(2) by (simp add: unmatched_def)
  then have ne: "objects t \<noteq> []" by (auto simp: live_def keys_def)
  show ?thesis
  proof (cases "rects = []")
    case True
    have d: "distinct (keys (disappeared t))" using wf by (simp add: wf_maps_def)
    have "i \<in> set (keys (disappeared t))" using i sk by (simp add: live_def same_keys_def)
    with True show ?thesis by (simp add: update_empty [OF ne] fold_mark_effect [OF d])
  next
    case False
    from i obtain r where r: "r < length (objects t)" "keys (objects t) ! r = i"
      using live_nth by blast
    have "r \<notin> fst ` set (matches_of hypot t rects)"
      using assms(2) False r(2) by (auto simp: unmatched_def)
    from update_unmatched_row [OF assms(1) ne False r(1) this] r(2) show ?thesis by simp
  qed
qed

lemma update_unmatched_count:
  assumes "inv t" and "unmatched hypot t rects i" and "count_at t i = Some (Count n)"
  shows "if maxDisappeared t < int (Suc n) then i \<notin> live (update hypot t rects)
         else count_at (update hypot t rects) i = Some (Count (Suc n)) \<and>
              centroid_at (update hypot t rects) i = centroid_at t i \<and> i \<in> live (update hypot t rects)"
proof -
  have a: "aged_out t i \<longleftrightarrow> maxDisappeared t < int (Suc n)"
    using assms(3) by (simp add: aged_out_def)
  have "centroid_at t i \<noteq> None" using assms(2) by (simp add: unmatched_def live_dom domIff)
  with update_unmatched [OF assms(1,2)] a assms(3) show ?thesis
    by (auto simp: live_dom)
qed

lemma id_of_col_source:
  assumes "inv t" and "c < length rects"
  shows "id_of_col hypot t rects c \<in> live (update hypot t rects) \<and>
         (id_of_col hypot t rects c \<in> live t \<or> id_of_col hypot t rects c \<in> set (fst (update_log hypot t rects)))"
proof -
  have "id_of_col hypot t rects c \<in> live (update hypot t rects)"
    using id_of_col_centroid [OF assms] by (auto simp: live_dom)
  then show ?thesis
    using live_update_subset [of hypot t rects] update_log_ids [of hypot t rects] by auto
qed

lemma id_of_col_unmatched:
  assumes "c \<notin> snd ` set (matches_of hypot t rects)"
  shows "nextObjectID t \<le> id_of_col hypot t rects c"
proof -
  have "find (\<lambda>m. snd m = c) (matches_of hypot t rects) = None"
    using assms by (force simp: find_None_iff)
  then show ?thesis by (simp add: id_of_col_def)
qed

subsection \<open>Ageing\<close>

lemma updates_Cons: "updates hypot t (rects # frames) = updates hypot (update hypot t rects) frames"
  by (simp add: updates_def)

lemma unmatched_run_snoc:
  "unmatched_run hypot t (frames @ [rects]) i
     \<longleftrightarrow> unmatched_run hypot t frames i \<and> unmatched hypot (updates hypot t frames) rects i"
  by (induction frames arbitrary: t) (simp_all add: updates_Cons, simp add: updates_def)

text \<open>While the misses stay within the threshold, the object stays and its counter counts them.\<close>

lemma unmatched_run_count:
  assumes "inv t" and "count_at t i = Some (Count n)" and "unmatched_run hypot t frames i"
    and "int (n + length frames) \<le> maxDisappeared t" and "i \<in> live t"
  shows "count_at (updates hypot t frames) i = Some (Count (n + length frames)) \<and>
         centroid_at (updates hypot t frames) i = centroid_at t i \<and>
         i \<in> live (updates hypot t frames)"
  using assms
proof (induction frames arbitrary: t n)
  case Nil
  then show ?case by (simp add: updates_def)
next
  case (Cons rects frames)
  let ?u = "update hypot t rects"
  have u: "unmatched hypot t rects i" and run: "unmatched_run hypot ?u frames i"
    using Cons.prems(3) by simp_all
  have le: "\<not> maxDisappeared t < int (Suc n)" using Cons.prems(4) by simp
  from update_unmatched_count [OF Cons.prems(1) u Cons.prems(2)] le
  have 1: "count_at ?u i = Some (Count (Suc n))" "centroid_at ?u i = centroid_at t i"
    "i \<in> live ?u" by simp_all
  have 2: "int (Suc n + length frames) \<le> maxDisappeared ?u"
    using Cons.prems(4) by (simp add: update_fields)
  from Cons.IH [OF inv_update [OF Cons.prems(1)] 1(1) run 2 1(3)] 1
  show ?case by (simp add: updates_Cons)
qed

lemma update_length_ge:
  assumes "inv t"
  shows "length rects \<le> length (objects (update hypot t rects))"
proof -
  let ?u = "update hypot t rects" and ?f = "id_of_col hypot t rects"
  have "?f ` {..<length rects} \<subseteq> live ?u"
    using id_of_col_source [OF assms] by auto
  then have "card (?f ` {..<length rects}) \<le> card (live ?u)"
    by (intro card_mono) (simp_all add: live_def)
  moreover have "card (?f ` {..<length rects}) = length rects"
    using id_of_col_inj [OF assms] by (simp add: card_image)
  moreover have "card (live ?u) = length (objects ?u)"
  proof -
    have "distinct (keys (objects ?u))"
      using wf_maps_update [of t hypot rects] assms by (simp add: inv_def wf_maps_def)
    then have "card (set (keys (objects ?u))) = length (keys (objects ?u))"
      by (rule distinct_card)
    then show ?thesis by (simp add: live_def keys_def)
  qed
  ultimately show ?thesis by simp
qed

subsection \<open>The scan finds the first smallest free cell\<close>

lemma first_free_min_unique:
  assumes "first_free_min D A B r c" and "first_free_min D A B r' c'"
  shows "r = r' \<and> c = c'"
proof -
  from assms have f: "free_cell D A B r c" "free_cell D A B r' c'"
    by (simp_all add: first_free_min_def)
  from assms(1) f(2) have 1: "D ! r ! c \<le> D ! r' ! c'"
    and 2: "D ! r' ! c' = D ! r ! c \<Longrightarrow> r < r' \<or> (r = r' \<and> c \<le> c')"
    unfolding first_free_min_def by blast+
  from assms(2) f(1) have 3: "D ! r' ! c' \<le> D ! r ! c"
    and 4: "D ! r ! c = D ! r' ! c' \<Longrightarrow> r' < r \<or> (r' = r \<and> c' \<le> c)"
    unfolding first_free_min_def by blast+
  from 1 3 have "D ! r' ! c' = D ! r ! c" by simp
  with 2 4 show ?thesis by auto
qed

lemma find_min_Some_first:
  assumes "find_min D aR aC = Some (v, r, c)"
  shows "first_free_min D (set aR) (set aC) r c \<and> v = D ! r ! c"
  using find_min_first_min [of D aR aC] assms
  by (auto simp: first_min_of_def first_free_min_def)

lemma find_min_eq_Some_iff:
  "find_min D aR aC = Some (v, r, c) \<longleftrightarrow> first_free_min D (set aR) (set aC) r c \<and> v = D ! r ! c"
proof
  assume "find_min D aR aC = Some (v, r, c)"
  then show "first_free_min D (set aR) (set aC) r c \<and> v = D ! r ! c"
    by (rule find_min_Some_first)
next
  assume a: "first_free_min D (set aR) (set aC) r c \<and> v = D ! r ! c"
  then have "free_cell D (set aR) (set aC) r c" by (simp add: first_free_min_def)
  then have "find_min D aR aC \<noteq> None" by (auto simp: find_min_None_iff)
  then obtain v' r' c' where s: "find_min D aR aC = Some (v', r', c')" by auto
  from find_min_Some_first [OF s] a first_free_min_unique [of D "set aR" "set aC" r c r' c']
  have "r' = r \<and> c' = c \<and> v' = v" by simp
  with s show "find_min D aR aC = Some (v, r, c)" by simp
qed

lemma set_set_add: "set (set_add s x) = insert x (set s)"
  by (auto simp: set_add_def)

lemma greedy_match_meets_spec:
  "greedy_spec D maxDist (set aR) (set aC) ms (greedy_match D maxDist aR aC ms)"
proof (induction D maxDist aR aC ms rule: greedy_match.induct)
  case (1 D maxDist aR aC ms)
  show ?case
  proof (cases "find_min D aR aC")
    case None
    then have "\<And>r c. \<not> free_cell D (set aR) (set aC) r c"
      by (simp add: find_min_None_iff)
    then have "greedy_spec D maxDist (set aR) (set aC) ms ms" by (rule exhausted)
    with None show ?thesis by (subst greedy_match.simps) simp
  next
    case (Some x)
    obtain v r c where x: "x = (v, r, c)" by (cases x) auto
    from find_min_Some_first [of D aR aC v r c] Some x
    have f: "first_free_min D (set aR) (set aC) r c" and v: "v = D ! r ! c" by simp_all
    show ?thesis
    proof (cases "maxDist < v")
      case True
      with f v have "greedy_spec D maxDist (set aR) (set aC) ms ms" by (intro too_far) simp_all
      with Some x True show ?thesis by (subst greedy_match.simps) simp
    next
      case False
      from "1.IH" [OF Some x [symmetric] refl False]
      have "greedy_spec D maxDist (insert r (set aR)) (insert c (set aC)) (ms @ [(r, c)])
              (greedy_match D maxDist (set_add aR r) (set_add aC c) (ms @ [(r, c)]))"
        by (simp add: set_set_add)
      with f False v
      have "greedy_spec D maxDist (set aR) (set aC) ms
              (greedy_match D maxDist (set_add aR r) (set_add aC c) (ms @ [(r, c)]))"
        by (intro take [of D "set aR" "set aC" r c]) simp_all
      with Some x False show ?thesis by (subst greedy_match.simps) simp
    qed
  qed
qed

lemma greedy_spec_determines:
  assumes "greedy_spec D maxDist A B ms ms'" and "A = set aR" and "B = set aC"
  shows "ms' = greedy_match D maxDist aR aC ms"
  using assms
proof (induction arbitrary: aR aC rule: greedy_spec.induct)
  case (exhausted A B ms)
  then have "find_min D aR aC = None" by (simp add: find_min_None_iff)
  then show ?case by (subst greedy_match.simps) simp
next
  case (too_far A B r c ms)
  then have "find_min D aR aC = Some (D ! r ! c, r, c)" by (simp add: find_min_eq_Some_iff)
  with too_far(2) show ?case by (subst greedy_match.simps) simp
next
  case (take A B r c ms ms')
  then have f: "find_min D aR aC = Some (D ! r ! c, r, c)" by (simp add: find_min_eq_Some_iff)
  have "ms' = greedy_match D maxDist (set_add aR r) (set_add aC c) (ms @ [(r, c)])"
    by (rule take.IH) (simp_all add: set_set_add take.prems)
  moreover have "greedy_match D maxDist aR aC ms
      = greedy_match D maxDist (set_add aR r) (set_add aC c) (ms @ [(r, c)])"
    using f take(2) by (subst greedy_match.simps) simp
  ultimately show ?case by simp
qed

subsection \<open>The nearest-centroid lookup\<close>

lemma euclid_le_iff: "euclid a b \<le> euclid c d \<longleftrightarrow> a * a + b * b \<le> c * c + d * d"
  by (simp add: euclid_def del: of_int_add of_int_mult)

lemma best_step_distance:
  "best_step hypot c (i, cent) best =
     (if less_inf (code_distance hypot cent c) (map_option snd best) then Some (i, code_distance hypot cent c) else best)"
  by (simp add: best_step_def code_distance_def Let_def)

lemma fold_best_step:
  "objs \<noteq> [] \<Longrightarrow>
   \<exists>k. nearest_first (code_distance hypot) objs c k \<and>
       fold (best_step hypot c) objs None = Some (fst (objs ! k), code_distance hypot (snd (objs ! k)) c)"
proof (induction objs rule: rev_induct)
  case Nil
  then show ?case by simp
next
  case (snoc x xs)
  obtain i cent where x: "x = (i, cent)" by (cases x) auto
  show ?case
  proof (cases "xs = []")
    case True
    then have "nearest_first (code_distance hypot) (xs @ [x]) c 0" by (simp add: nearest_first_def)
    moreover have "fold (best_step hypot c) (xs @ [x]) None
                     = Some (fst ((xs @ [x]) ! 0), code_distance hypot (snd ((xs @ [x]) ! 0)) c)"
      using True x by (simp add: best_step_distance)
    ultimately show ?thesis by blast
  next
    case False
    from snoc.IH [OF False] obtain k where k: "nearest_first (code_distance hypot) xs c k"
      and f: "fold (best_step hypot c) xs None = Some (fst (xs ! k), code_distance hypot (snd (xs ! k)) c)"
      by blast
    from k have kl: "k < length xs" by (simp add: nearest_first_def)
    show ?thesis
    proof (cases "code_distance hypot cent c < code_distance hypot (snd (xs ! k)) c")
      case True
      have "nearest_first (code_distance hypot) (xs @ [x]) c (length xs)"
        unfolding nearest_first_def
      proof (intro conjI allI impI)
        show "length xs < length (xs @ [x])" by simp
      next
        fix k' assume "k' < length (xs @ [x])"
        then consider "k' < length xs" | "k' = length xs" by fastforce
        then show "code_distance hypot (snd ((xs @ [x]) ! length xs)) c \<le> code_distance hypot (snd ((xs @ [x]) ! k')) c"
        proof cases
          case 1
          with k have "code_distance hypot (snd (xs ! k)) c \<le> code_distance hypot (snd (xs ! k')) c"
            by (simp add: nearest_first_def)
          with True 1 x show ?thesis by (simp add: nth_append)
        next
          case 2
          then show ?thesis by simp
        qed
      next
        fix k' assume k': "k' < length xs"
        with k have "code_distance hypot (snd (xs ! k)) c \<le> code_distance hypot (snd (xs ! k')) c"
          by (simp add: nearest_first_def)
        with True k' x show "code_distance hypot (snd ((xs @ [x]) ! length xs)) c
                               < code_distance hypot (snd ((xs @ [x]) ! k')) c"
          by (simp add: nth_append)
      qed
      moreover have "fold (best_step hypot c) (xs @ [x]) None
          = Some (fst ((xs @ [x]) ! length xs), code_distance hypot (snd ((xs @ [x]) ! length xs)) c)"
        using True f x by (simp add: best_step_distance)
      ultimately show ?thesis by blast
    next
      case False
      have "nearest_first (code_distance hypot) (xs @ [x]) c k"
        unfolding nearest_first_def
      proof (intro conjI allI impI)
        show "k < length (xs @ [x])" using kl by simp
      next
        fix k' assume "k' < length (xs @ [x])"
        then consider "k' < length xs" | "k' = length xs" by fastforce
        then show "code_distance hypot (snd ((xs @ [x]) ! k)) c \<le> code_distance hypot (snd ((xs @ [x]) ! k')) c"
        proof cases
          case 1
          with k kl show ?thesis by (simp add: nearest_first_def nth_append)
        next
          case 2
          with False kl x show ?thesis by (simp add: nth_append)
        qed
      next
        fix k' assume k': "k' < k"
        with k kl show "code_distance hypot (snd ((xs @ [x]) ! k)) c < code_distance hypot (snd ((xs @ [x]) ! k')) c"
          by (simp add: nearest_first_def nth_append)
      qed
      moreover have "fold (best_step hypot c) (xs @ [x]) None
          = Some (fst ((xs @ [x]) ! k), code_distance hypot (snd ((xs @ [x]) ! k)) c)"
        using False f x kl by (simp add: best_step_distance nth_append)
      ultimately show ?thesis by blast
    qed
  qed
qed

subsection \<open>The same frame again\<close>

lemma distance_eq_0_iff: "distance a b = 0 \<longleftrightarrow> a = b"
  by (auto simp: distance_def euclid_eq_0_iff prod_eq_iff)

lemma distance_nonneg: "0 \<le> distance a b"
  by (simp add: distance_def euclid_nonneg)

lemma is_hypot_euclid: "is_hypot euclid"
  by (simp add: is_hypot_def euclid_nonneg euclid_eq_0_iff)

lemma code_distance_eq_0_iff: "is_hypot hypot \<Longrightarrow> code_distance hypot a b = 0 \<longleftrightarrow> a = b"
  by (auto simp: code_distance_def is_hypot_def prod_eq_iff)

lemma code_distance_same: "is_hypot hypot \<Longrightarrow> code_distance hypot a a = 0"
  by (simp add: code_distance_def is_hypot_def)

lemma code_distance_nonneg: "is_hypot hypot \<Longrightarrow> 0 \<le> code_distance hypot a b"
  by (simp add: code_distance_def is_hypot_def)

text \<open>
  A counting argument. The matches made so far pair rows and columns with equal
  centroids, and every column has a row of its own with its centroid. Then a column that
  is not matched yet still has an unmatched row with its centroid.
\<close>

lemma free_zero_row:
  fixes rowc :: "nat \<Rightarrow> 'a" and colc :: "nat \<Rightarrow> 'a"
  assumes inj_fst: "inj_on fst (set ms)" and inj_snd: "inj_on snd (set ms)"
    and zero: "\<forall>m \<in> set ms. rowc (fst m) = colc (snd m)"
    and cols: "\<forall>m \<in> set ms. snd m < C"
    and g_inj: "inj_on g {..<C}" and g: "\<forall>c < C. g c < R \<and> rowc (g c) = colc c"
    and c0: "c0 < C" "c0 \<notin> snd ` set ms"
  shows "\<exists>r < R. r \<notin> fst ` set ms \<and> rowc r = colc c0"
proof (rule ccontr)
  assume no: "\<not> (\<exists>r < R. r \<notin> fst ` set ms \<and> rowc r = colc c0)"
  let ?M = "{m \<in> set ms. colc (snd m) = colc c0}"
  let ?O = "{r. r < R \<and> rowc r = colc c0}"
  have fin: "finite ?M" "finite ?O" by simp_all
  have "?O \<subseteq> fst ` ?M"
  proof
    fix r assume "r \<in> ?O"
    then have r: "r < R" "rowc r = colc c0" by simp_all
    with no obtain m where m: "m \<in> set ms" "fst m = r" by auto
    with zero r(2) have "colc (snd m) = colc c0" by auto
    with m show "r \<in> fst ` ?M" by auto
  qed
  then have "card ?O \<le> card (fst ` ?M)" by (intro card_mono) simp_all
  also have "\<dots> \<le> card ?M" by (rule card_image_le) simp
  finally have 1: "card ?O \<le> card ?M" .
  have "inj_on snd ?M" using inj_snd by (rule inj_on_subset) auto
  then have 2: "card (snd ` ?M) = card ?M" by (rule card_image)
  have sub: "insert c0 (snd ` ?M) \<subseteq> {..<C}" using c0(1) cols by auto
  have "c0 \<notin> snd ` ?M" using c0(2) by auto
  then have 3: "card (insert c0 (snd ` ?M)) = Suc (card ?M)" using 2 by simp
  have ig: "inj_on g (insert c0 (snd ` ?M))" using g_inj sub by (rule inj_on_subset)
  have 4: "card (g ` insert c0 (snd ` ?M)) = Suc (card ?M)"
    using card_image [OF ig] 3 by (simp only:)
  have "g ` insert c0 (snd ` ?M) \<subseteq> ?O"
  proof
    fix r assume "r \<in> g ` insert c0 (snd ` ?M)"
    then obtain c where c: "c \<in> insert c0 (snd ` ?M)" "r = g c" by auto
    then have "c < C" using sub by auto
    moreover have "colc c = colc c0" using c(1) by auto
    ultimately show "r \<in> ?O" using g c(2) by simp
  qed
  then have "card (g ` insert c0 (snd ` ?M)) \<le> card ?O" by (intro card_mono) simp_all
  with 1 4 show False by simp
qed

text \<open>
  When every detection has an object of its own at its centroid and \<open>maxDistance\<close> is not
  negative, the matcher matches every detection, each to an object at its centroid.
\<close>

lemma matches_of_covered:
  assumes hyp: "is_hypot hypot" and wf: "wf_maps u" and md: "0 \<le> maxDistance u"
    and f_inj: "inj_on f {..<length rects}"
    and f: "\<forall>c < length rects. centroid_at u (f c) = Some (centroid_of (rects ! c))"
  shows "(\<forall>m \<in> set (matches_of hypot u rects).
            snd (objects u ! fst m) = centroid_of (rects ! snd m)) \<and>
         snd ` set (matches_of hypot u rects) = {..<length rects}"
proof -
  let ?R = "length (objects u)" and ?C = "length rects"
  let ?rowc = "\<lambda>r. snd (objects u ! r)" and ?colc = "\<lambda>c. centroid_of (rects ! c)"
  let ?D = "dist_matrix hypot (map snd (objects u)) (map centroid_of rects)"
  have D: "?D ! r ! c = code_distance hypot (?rowc r) (?colc c)" if "r < ?R" "c < ?C" for r c
    using that by (simp add: dist_matrix_distance)
  have "\<forall>c < ?C. \<exists>r. r < ?R \<and> keys (objects u) ! r = f c"
    using f live_nth [of _ u] by (auto simp: live_dom)
  then obtain g where g: "\<forall>c < ?C. g c < ?R \<and> keys (objects u) ! g c = f c" by metis
  have g_inj: "inj_on g {..<?C}"
  proof (rule inj_onI)
    fix c c' assume c: "c \<in> {..<?C}" "c' \<in> {..<?C}" and "g c = g c'"
    with g have "f c = f c'" by (metis lessThan_iff)
    with f_inj c show "c = c'" by (simp add: inj_on_def)
  qed
  have g_cent: "\<forall>c < ?C. g c < ?R \<and> ?rowc (g c) = ?colc c"
  proof (intro allI impI)
    fix c assume c: "c < ?C"
    with g have r: "g c < ?R" "keys (objects u) ! g c = f c" by simp_all
    from centroid_at_nth [OF wf r(1)] r(2) f c have "?rowc (g c) = ?colc c" by simp
    with r(1) show "g c < ?R \<and> ?rowc (g c) = ?colc c" by simp
  qed
  let ?I = "\<lambda>aR aC ms. matching ?D (maxDistance u) aR aC ms \<and>
                          (\<forall>m \<in> set ms. ?rowc (fst m) = ?colc (snd m))"
  have pigeon: "\<exists>r < ?R. r \<notin> fst ` set ms \<and> ?rowc r = ?colc c0"
    if I: "?I aR aC ms" and c0: "c0 < ?C" "c0 \<notin> snd ` set ms" for aR aC ms c0
  proof -
    from I have d: "distinct (map fst ms)" "distinct (map snd ms)"
      and rng: "\<forall>m \<in> set ms. fst m < length ?D \<and> snd m < length (?D ! fst m)"
      and z: "\<forall>m \<in> set ms. ?rowc (fst m) = ?colc (snd m)"
      unfolding matching_def by blast+
    from d have i: "inj_on fst (set ms)" "inj_on snd (set ms)" by (simp_all add: distinct_map)
    from rng have cols: "\<forall>m \<in> set ms. snd m < ?C" by auto
    show ?thesis by (rule free_zero_row [OF i z cols g_inj g_cent c0])
  qed
  have "\<exists>aR' aC'. ?I aR' aC' (greedy_match ?D (maxDistance u) [] [] []) \<and>
           (\<forall>r c. free_cell ?D (set aR') (set aC') r c \<longrightarrow> maxDistance u < ?D ! r ! c)"
  proof (rule greedy_match_rule [where I = ?I])
    show "?I [] [] []" by (simp add: matching_def)
  next
    fix aR aC ms v r c
    assume I: "?I aR aC ms" and fm: "find_min ?D aR aC = Some (v, r, c)"
      and le: "\<not> maxDistance u < v"
    from I have m: "matching ?D (maxDistance u) aR aC ms" by simp
    from m have sets: "set aR = fst ` set ms" "set aC = snd ` set ms"
      unfolding matching_def by blast+
    from fm have first: "first_min_of ?D {(r, c). free_cell ?D (set aR) (set aC) r c}
                           (Some (v, r, c))"
      using find_min_first_min [of ?D aR aC] by simp
    from find_min_Some_free [OF fm]
    have free: "free_cell ?D (set aR) (set aC) r c" and v: "v = ?D ! r ! c" by simp_all
    from free have r: "r < ?R" and c: "c < ?C" "c \<notin> snd ` set ms"
      by (auto simp: free_cell_def sets)
    from pigeon [OF I c] obtain r0 where r0: "r0 < ?R" "r0 \<notin> fst ` set ms"
      "?rowc r0 = ?colc c" by blast
    then have "free_cell ?D (set aR) (set aC) r0 c"
      using c by (simp add: free_cell_def sets)
    with first have "v \<le> ?D ! r0 ! c" by (auto simp: first_min_of_def)
    also have "?D ! r0 ! c = 0" using r0 c(1) by (simp add: D code_distance_eq_0_iff [OF hyp] code_distance_same [OF hyp])
    finally have "v \<le> 0" .
    moreover have "0 \<le> v" using v r c(1) by (simp add: D code_distance_nonneg [OF hyp])
    ultimately have "?D ! r ! c = 0" using v by simp
    then have "?rowc r = ?colc c" using r c(1) by (simp add: D code_distance_eq_0_iff [OF hyp] code_distance_same [OF hyp])
    with I matching_step [OF m fm le]
    show "?I (set_add aR r) (set_add aC c) (ms @ [(r, c)])" by simp
  qed
  then obtain aR' aC' where I: "?I aR' aC' (matches_of hypot u rects)"
    and stop: "\<And>r c. free_cell ?D (set aR') (set aC') r c \<Longrightarrow> maxDistance u < ?D ! r ! c"
    unfolding matches_of_def by blast
  from I have sets: "set aR' = fst ` set (matches_of hypot u rects)"
    "set aC' = snd ` set (matches_of hypot u rects)"
    unfolding matching_def by blast+
  have "c \<in> snd ` set (matches_of hypot u rects)" if c: "c < ?C" for c
  proof (rule ccontr)
    assume n: "c \<notin> snd ` set (matches_of hypot u rects)"
    from pigeon [OF I c n] obtain r0 where r0: "r0 < ?R"
      "r0 \<notin> fst ` set (matches_of hypot u rects)" "?rowc r0 = ?colc c" by blast
    then have "free_cell ?D (set aR') (set aC') r0 c"
      using c n by (simp add: free_cell_def sets)
    from stop [OF this] have "maxDistance u < ?D ! r0 ! c" .
    moreover have "?D ! r0 ! c = 0" using r0 c by (simp add: D code_distance_eq_0_iff [OF hyp] code_distance_same [OF hyp])
    ultimately show False using md by simp
  qed
  moreover have "snd m < ?C" if "m \<in> set (matches_of hypot u rects)" for m
    using matches_of_props [of hypot u rects] that by blast
  ultimately have "snd ` set (matches_of hypot u rects) = {..<?C}" by auto
  with I show ?thesis by simp
qed

lemma euclid_gt_neg: "m < 0 \<Longrightarrow> m < euclid a b"
  using euclid_nonneg [of a b] by simp

lemma update_log_nothing_issued:
  assumes "nextObjectID (update hypot t rects) = nextObjectID t"
  shows "fst (update_log hypot t rects) = []"
  using update_log_ids [of hypot t rects] assms by simp

text \<open>One more call with the frame of the call before: what happens to a live object.\<close>

lemma unmatched_row:
  assumes "wf_maps t" and "r < length (objects t)"
    and "r \<notin> fst ` set (matches_of hypot t rects)"
  shows "unmatched hypot t rects (keys (objects t) ! r)"
proof -
  have "keys (objects t) ! fst m \<noteq> keys (objects t) ! r"
    if m: "m \<in> set (matches_of hypot t rects)" for m
  proof -
    from m have "fst m < length (objects t)" using matches_of_props [of hypot t rects] by blast
    from keys_nth_inj [OF assms(1) this assms(2)] m assms(3) show ?thesis by auto
  qed
  with keys_nth_live [OF assms(2)] show ?thesis by (simp add: unmatched_def)
qed

lemma repeated_frame_at:
  assumes "is_hypot hypot" and "inv t" and "0 \<le> maxDistance t"
    and "i \<in> live (update hypot t rects)"
  shows "nextObjectID (update hypot (update hypot t rects) rects) = nextObjectID (update hypot t rects) \<and>
         (centroid_at (update hypot (update hypot t rects) rects) i = centroid_at (update hypot t rects) i \<or>
          unmatched hypot (update hypot t rects) rects i \<and> aged_out (update hypot t rects) i \<and>
          centroid_at (update hypot (update hypot t rects) rects) i = None)"
proof -
  let ?u = "update hypot t rects"
  let ?v = "update hypot ?u rects"
  have iu: "inv ?u" by (rule inv_update [OF assms(2)])
  then have wf: "wf_maps ?u" by (simp add: inv_def)
  have md: "0 \<le> maxDistance ?u" using assms(3) by (simp add: update_fields)
  from assms(4) have ne: "objects ?u \<noteq> []" by (auto simp: live_def keys_def)
  show ?thesis
  proof (cases "rects = []")
    case True
    have un: "unmatched hypot ?u rects i" using assms(4) True by (simp add: unmatched_def)
    from update_unmatched [OF iu this] un
    have "centroid_at ?v i = centroid_at ?u i \<or>
          unmatched hypot ?u rects i \<and> aged_out ?u i \<and> centroid_at ?v i = None"
      by (simp split: if_splits)
    moreover have "nextObjectID (update hypot ?u []) = nextObjectID ?u"
      using ne by (simp add: update_empty)
    ultimately show ?thesis using True by simp
  next
    case False
    have cov: "(\<forall>m \<in> set (matches_of hypot ?u rects).
                  snd (objects ?u ! fst m) = centroid_of (rects ! snd m)) \<and>
               snd ` set (matches_of hypot ?u rects) = {..<length rects}"
    proof (rule matches_of_covered [OF assms(1) wf md id_of_col_inj [OF assms(2)]])
      show "\<forall>c < length rects.
              centroid_at ?u (id_of_col hypot t rects c) = Some (centroid_of (rects ! c))"
        using id_of_col_centroid [OF assms(2)] by simp
    qed
    then have "unmatched_cols hypot ?u rects = []"
      by (simp add: unmatched_cols_def filter_empty_conv)
    then have n: "nextObjectID ?v = nextObjectID ?u"
      by (simp add: update_general_fields [OF ne False])
    from assms(4) obtain r where r: "r < length (objects ?u)" "keys (objects ?u) ! r = i"
      using live_nth by blast
    have "centroid_at ?v i = centroid_at ?u i \<or>
          unmatched hypot ?u rects i \<and> aged_out ?u i \<and> centroid_at ?v i = None"
    proof (cases "r \<in> fst ` set (matches_of hypot ?u rects)")
      case True
      then obtain m where m: "m \<in> set (matches_of hypot ?u rects)" "fst m = r" by auto
      from update_matched [OF iu ne False m(1)] m(2) r(2)
      have "centroid_at ?v i = Some (centroid_of (rects ! snd m))" by simp
      also have "\<dots> = Some (snd (objects ?u ! r))" using cov m by auto
      also have "\<dots> = centroid_at ?u i" using centroid_at_nth [OF wf r(1)] r(2) by simp
      finally show ?thesis by simp
    next
      case False
      from update_unmatched_row [OF iu ne \<open>rects \<noteq> []\<close> r(1) False] r(2)
        unmatched_row [OF wf r(1) False]
      show ?thesis by (simp split: if_splits)
    qed
    with n show ?thesis by simp
  qed
qed

text \<open>
  When some entry has the centroid \<open>c\<close> itself, the first entry nearest to \<open>c\<close> by the
  distances of the code is also the first entry nearest to \<open>c\<close> by the Euclidean distance:
  both are the first entry at \<open>c\<close>.
\<close>

lemma nearest_first_exact:
  assumes "is_hypot hypot" and "nearest_first (code_distance hypot) objs c k"
    and "k0 < length objs" and "snd (objs ! k0) = c"
  shows "nearest_first distance objs c k"
proof -
  from assms(2) have k: "k < length objs"
    and le: "\<And>k'. k' < length objs \<Longrightarrow>
               code_distance hypot (snd (objs ! k)) c \<le> code_distance hypot (snd (objs ! k')) c"
    and lt: "\<And>k'. k' < k \<Longrightarrow>
               code_distance hypot (snd (objs ! k)) c < code_distance hypot (snd (objs ! k')) c"
    by (simp_all add: nearest_first_def)
  from le [OF assms(3)] assms(4) have "code_distance hypot (snd (objs ! k)) c \<le> 0"
    by (simp add: code_distance_same [OF assms(1)])
  with code_distance_nonneg [OF assms(1), of "snd (objs ! k)" c]
  have z: "code_distance hypot (snd (objs ! k)) c = 0" by simp
  then have at: "snd (objs ! k) = c" by (simp add: code_distance_eq_0_iff [OF assms(1)])
  have same: "distance c c = 0" by (simp add: distance_eq_0_iff)
  have "distance (snd (objs ! k)) c < distance (snd (objs ! k')) c" if "k' < k" for k'
  proof -
    from lt [OF that] z have "snd (objs ! k') \<noteq> c"
      by (auto simp: code_distance_same [OF assms(1)])
    then have "distance (snd (objs ! k')) c \<noteq> 0" by (simp add: distance_eq_0_iff)
    with distance_nonneg [of "snd (objs ! k')" c] have "0 < distance (snd (objs ! k')) c"
      by simp
    with same at show ?thesis by simp
  qed
  moreover have "distance (snd (objs ! k)) c \<le> distance (snd (objs ! k')) c" for k'
    using at same distance_nonneg [of "snd (objs ! k')" c] by simp
  ultimately show ?thesis using k by (simp add: nearest_first_def)
qed

text \<open>
  An object is unmatched when every detection is farther from it than \<open>maxDistance\<close> or
  matched to another object.
\<close>

lemma no_candidate_unmatched:
  assumes "wf_maps t" and "centroid_at t i = Some c"
    and "\<forall>k < length rects.
           maxDistance t < code_distance hypot c (centroid_of (rects ! k)) \<or>
           (\<exists>m \<in> set (matches_of hypot t rects). snd m = k \<and> keys (objects t) ! fst m \<noteq> i)"
  shows "unmatched hypot t rects i"
proof -
  have "keys (objects t) ! fst m \<noteq> i" if m: "m \<in> set (matches_of hypot t rects)" for m
  proof
    assume eq: "keys (objects t) ! fst m = i"
    from m have k: "snd m < length rects" using matches_of_props [of hypot t rects] by blast
    from match_within [OF assms(1) m] eq assms(2)
    have near: "\<not> maxDistance t < code_distance hypot c (centroid_of (rects ! snd m))" by simp
    with assms(3) k obtain m' where m': "m' \<in> set (matches_of hypot t rects)"
      "snd m' = snd m" "keys (objects t) ! fst m' \<noteq> i" by blast
    have "inj_on snd (set (matches_of hypot t rects))"
      using matches_of_props [of hypot t rects] by (simp add: distinct_map)
    with m m'(1,2) have "m' = m" by (simp add: inj_on_def)
    with m'(3) eq show False by simp
  qed
  moreover have "i \<in> live t" using assms(2) by (auto simp: live_dom)
  ultimately show ?thesis by (simp add: unmatched_def)
qed

text \<open>The loop returns exactly the matches of the greedy selection.\<close>

lemma greedy_match_iff_spec:
  "greedy_spec D maxDist (set assignedRows) (set assignedCols) matches ms
     \<longleftrightarrow> ms = greedy_match D maxDist assignedRows assignedCols matches"
  using greedy_match_meets_spec [of D maxDist assignedRows assignedCols matches]
    greedy_spec_determines [of D maxDist "set assignedRows" "set assignedCols" matches ms
      assignedRows assignedCols]
  by auto


section \<open>The claims\<close>

text \<open>
  Claim C1. In the general case of \<open>update\<close> (a live object and a box), let \<open>D\<close> be the
  matrix of the distances that the code computes, with \<open>Math.hypot\<close>, between the
  centroids of the live objects and of the boxes. The greedy selection of the
  specification on \<open>D\<close> (each round the smallest entry over the rows and columns not yet
  assigned, the first one in row-major order among equal entries, until no cell is free or
  that entry is greater than \<open>maxDistance\<close>), started with no row and no column assigned,
  has exactly one outcome, and its matches are the ones \<open>update\<close> commits: after the call
  the object of each matched row has the centroid of its matched box and miss counter 0,
  the object of every other row has one more miss counted (and is removed when that
  exceeds \<open>maxDisappeared\<close>), and every other box is registered under an id issued in the
  call.
\<close>

theorem update_matches_greedily:
  assumes "inv t" and "objects t \<noteq> []" and "rects \<noteq> []"
  shows "\<exists>ms.
     greedy_spec (dist_matrix hypot (map snd (objects t)) (map centroid_of rects))
       (maxDistance t) {} {} [] ms \<and>
     (\<forall>ms'. greedy_spec (dist_matrix hypot (map snd (objects t)) (map centroid_of rects))
              (maxDistance t) {} {} [] ms' \<longrightarrow> ms' = ms) \<and>
     (\<forall>m \<in> set ms.
        centroid_at (update hypot t rects) (keys (objects t) ! fst m)
          = Some (centroid_of (rects ! snd m)) \<and>
        count_at (update hypot t rects) (keys (objects t) ! fst m) = Some (Count 0)) \<and>
     (\<forall>r < length (objects t). r \<notin> fst ` set ms \<longrightarrow>
        centroid_at (update hypot t rects) (keys (objects t) ! r)
          = (if aged_out t (keys (objects t) ! r) then None
             else centroid_at t (keys (objects t) ! r)) \<and>
        count_at (update hypot t rects) (keys (objects t) ! r)
          = (if aged_out t (keys (objects t) ! r) then None
             else Some (plus_one (count_at t (keys (objects t) ! r))))) \<and>
     (\<forall>c < length rects. c \<notin> snd ` set ms \<longrightarrow>
        id_of_col hypot t rects c \<in> set (fst (update_log hypot t rects)) \<and>
        centroid_at (update hypot t rects) (id_of_col hypot t rects c)
          = Some (centroid_of (rects ! c)))"
proof -
  let ?D = "dist_matrix hypot (map snd (objects t)) (map centroid_of rects)"
  let ?ms = "matches_of hypot t rects"
  have 1: "greedy_spec ?D (maxDistance t) {} {} [] ?ms"
    using greedy_match_meets_spec [of ?D "maxDistance t" "[]" "[]" "[]"]
    by (simp add: matches_of_def)
  have 2: "ms' = ?ms" if "greedy_spec ?D (maxDistance t) {} {} [] ms'" for ms'
    using greedy_spec_determines [OF that, of "[]" "[]"] by (simp add: matches_of_def)
  have 3: "centroid_at (update hypot t rects) (keys (objects t) ! fst m)
             = Some (centroid_of (rects ! snd m)) \<and>
           count_at (update hypot t rects) (keys (objects t) ! fst m) = Some (Count 0)"
    if "m \<in> set ?ms" for m
    by (rule update_matched [OF assms that])
  have 4: "centroid_at (update hypot t rects) (keys (objects t) ! r)
          = (if aged_out t (keys (objects t) ! r) then None
             else centroid_at t (keys (objects t) ! r)) \<and>
        count_at (update hypot t rects) (keys (objects t) ! r)
          = (if aged_out t (keys (objects t) ! r) then None
             else Some (plus_one (count_at t (keys (objects t) ! r))))"
    if "r < length (objects t)" "r \<notin> fst ` set ?ms" for r
    by (rule update_unmatched_row [OF assms that])
  have 5: "id_of_col hypot t rects c \<in> set (fst (update_log hypot t rects)) \<and>
        centroid_at (update hypot t rects) (id_of_col hypot t rects c)
          = Some (centroid_of (rects ! c))"
    if c: "c < length rects" "c \<notin> snd ` set ?ms" for c
  proof -
    have "nextObjectID t \<le> id_of_col hypot t rects c" by (rule id_of_col_unmatched [OF c(2)])
    then have "id_of_col hypot t rects c \<notin> live t" using assms(1) by (auto simp: inv_def)
    with id_of_col_source [where hypot = hypot, OF assms(1) c(1)]
      id_of_col_centroid [where hypot = hypot, OF assms(1) c(1)]
    show ?thesis by simp
  qed
  from 1 2 3 4 5 show ?thesis by blast
qed

text \<open>
  Objects 1 and 2 at (10, 10) and (30, 10), and one box with centroid (20, 10), at
  distance 10 from both: the two entries of the matrix are equal, the first in row-major
  order is taken, and \<open>update\<close> moves object 1 and counts a miss for object 2.
\<close>

theorem update_matches_greedily_witness:
  "greedy_spec (dist_matrix euclid [(10, 10), (30, 10)] [(20, 10)]) 50 {} {} [] [(0, 0)] \<and>
   objects (update euclid (update euclid (CentroidTracker 1 50) [(0, 0, 20, 20), (20, 0, 40, 20)])
              [(10, 0, 30, 20)]) = [(1, (20, 10)), (2, (30, 10))] \<and>
   count_at (update euclid (update euclid (CentroidTracker 1 50) [(0, 0, 20, 20), (20, 0, 40, 20)])
              [(10, 0, 30, 20)]) 2 = Some (Count 1) \<and>
   centroid_at (update euclid (update euclid (CentroidTracker 1 50) [(0, 0, 20, 20), (20, 0, 40, 20)])
              [(10, 0, 30, 20)]) 1 = Some (20, 10)"
proof -
  let ?t = "update euclid (CentroidTracker 1 50) [(0, 0, 20, 20), (20, 0, 40, 20)]"
  let ?rects = "[(10, 0, 30, 20)] :: rect list"
  let ?D = "dist_matrix euclid [(10, 10), (30, 10)] [(20, 10)]"
  have t: "?t = \<lparr>nextObjectID = 3, objects = [(1, (10, 10)), (2, (30, 10))],
                  disappeared = [(1, Count 0), (2, Count 0)], maxDisappeared = 1,
                  maxDistance = 50\<rparr>"
    by (simp add: eval_defs)
  have i: "inv ?t"
    unfolding t by (simp add: inv_def wf_maps_def same_keys_def live_def keys_def)
  have ne: "objects ?t \<noteq> []" "?rects \<noteq> []" unfolding t by simp_all
  have D: "dist_matrix euclid (map snd (objects ?t)) (map centroid_of ?rects) = ?D"
    unfolding t by (simp add: centroid_of_def round_half_def)
  have md: "maxDistance ?t = 50" and ids: "keys (objects ?t) = [1, 2]"
    unfolding t by (simp_all add: keys_def)
  from update_matches_greedily [OF i ne, where hypot = euclid, unfolded D md ids]
  obtain ms where spec: "greedy_spec ?D 50 {} {} [] ms"
    and commits: "\<forall>m \<in> set ms. centroid_at (update euclid ?t ?rects) ([1, 2] ! fst m)
                    = Some (centroid_of (?rects ! snd m)) \<and>
                  count_at (update euclid ?t ?rects) ([1, 2] ! fst m) = Some (Count 0)"
    by blast
  have "greedy_match ?D 50 [] [] [] = [(0, 0)]"
    by (simp add: eval_defs)
  with greedy_match_iff_spec [of ?D 50 "[]" "[]" "[]" ms] spec have ms: "ms = [(0, 0)]"
    by simp
  from commits have c1: "centroid_at (update euclid ?t ?rects) 1 = Some (20, 10)"
    unfolding ms by (simp add: centroid_of_def round_half_def)
  have u: "update euclid ?t ?rects = \<lparr>nextObjectID = 3, objects = [(1, (20, 10)), (2, (30, 10))],
                  disappeared = [(1, Count 0), (2, Count 1)], maxDisappeared = 1,
                  maxDistance = 50\<rparr>"
    unfolding t by (simp add: eval_defs)
  have c2: "count_at (update euclid ?t ?rects) 2 = Some (Count 1)"
    unfolding u by (simp add: count_at_eq)
  from spec c1 c2 u show ?thesis unfolding ms by simp
qed

text \<open>
  Claim C2. Take a tracker with \<open>maxDisappeared \<ge> 0\<close> (so every positive threshold) and
  an object whose miss counter is 0, as it is right after the object was registered or
  matched. If the object is unmatched in each of the next calls of \<open>update\<close>, then after
  exactly \<open>maxDisappeared\<close> calls it is still in the returned mapping, and after
  \<open>maxDisappeared + 1\<close> calls it is not.
\<close>

theorem ageing_threshold:
  assumes "inv t" and "0 \<le> maxDisappeared t" and "count_at t i = Some (Count 0)"
    and "i \<in> live t" and "unmatched_run hypot t frames i"
  shows "(int (length frames) = maxDisappeared t \<longrightarrow> i \<in> live (updates hypot t frames)) \<and>
         (int (length frames) = maxDisappeared t + 1 \<longrightarrow> i \<notin> live (updates hypot t frames))"
proof (intro conjI impI)
  assume "int (length frames) = maxDisappeared t"
  with unmatched_run_count [OF assms(1,3,5) _ assms(4)]
  show "i \<in> live (updates hypot t frames)" by simp
next
  assume len: "int (length frames) = maxDisappeared t + 1"
  with assms(2) have "frames \<noteq> []" by auto
  then obtain fs rects where f: "frames = fs @ [rects]" by (metis rev_exhaust)
  let ?v = "updates hypot t fs"
  from assms(5) f have run: "unmatched_run hypot t fs i" and u: "unmatched hypot ?v rects i"
    by (simp_all add: unmatched_run_snoc)
  have l: "int (length fs) = maxDisappeared t" using len f by simp
  with unmatched_run_count [OF assms(1,3) run _ assms(4)]
  have c: "count_at ?v i = Some (Count (length fs))" by simp
  have "maxDisappeared ?v < int (Suc (length fs))" using l by (simp add: updates_fields)
  with update_unmatched_count [OF inv_updates [OF assms(1)] u c]
  show "i \<notin> live (updates hypot t frames)" by (simp add: f updates_snoc)
qed

text \<open>
  Scenario A of the specification: \<open>maxDisappeared = 1\<close>, one box, then empty frames. The
  object is there after one empty frame and gone after two.
\<close>

theorem ageing_threshold_witness:
  "1 \<in> live (updates euclid (update euclid (CentroidTracker 1 50) [(0, 0, 20, 20)]) [[]]) \<and>
   1 \<notin> live (updates euclid (update euclid (CentroidTracker 1 50) [(0, 0, 20, 20)]) [[], []])"
proof -
  let ?t = "update euclid (CentroidTracker 1 50) [(0, 0, 20, 20)]"
  have t: "?t = \<lparr>nextObjectID = 2, objects = [(1, (10, 10))], disappeared = [(1, Count 0)],
                  maxDisappeared = 1, maxDistance = 50\<rparr>"
    by (simp add: eval_defs)
  have t1: "update euclid ?t [] = \<lparr>nextObjectID = 2, objects = [(1, (10, 10))],
                  disappeared = [(1, Count 1)], maxDisappeared = 1, maxDistance = 50\<rparr>"
    unfolding t by (simp add: eval_defs)
  have i: "inv ?t"
    unfolding t by (simp add: inv_def wf_maps_def same_keys_def live_def keys_def)
  have md: "maxDisappeared ?t = 1" and n: "count_at ?t 1 = Some (Count 0)" and l: "1 \<in> live ?t"
    unfolding t by (simp_all add: count_at_eq live_def keys_def)
  have r1: "unmatched_run euclid ?t [[]] 1"
    using l by (simp add: unmatched_def)
  have r2: "unmatched_run euclid ?t [[], []] 1"
    using l unfolding unmatched_run.simps t1 by (simp add: unmatched_def live_def keys_def)
  from ageing_threshold [OF i _ n l r1] ageing_threshold [OF i _ n l r2] md
  show ?thesis by simp
qed

text \<open>
  Claim C3. Distances are the ones the code computes, with \<open>Math.hypot\<close>. Let detection
  \<open>j\<close> of a frame be farther than \<open>maxDistance\<close> from the centroid of every live object.
  Then no match is for \<open>j\<close>; \<open>update\<close> registers it: its id is one issued in this call,
  was not live before, and is live afterwards with the detection's centroid and miss
  counter 0. A live object for which \<open>j\<close> was the only candidate, every other detection
  being farther from it than \<open>maxDistance\<close> or matched to another object, is unmatched. And
  every unmatched live object has one more miss counted: its counter goes from \<open>n\<close> to
  \<open>n + 1\<close> and its centroid stays, or, when \<open>n + 1\<close> exceeds \<open>maxDisappeared\<close>, it is
  removed.
\<close>

theorem far_detection_registered:
  assumes "inv t" and "j < length rects"
    and "\<forall>i c. centroid_at t i = Some c
           \<longrightarrow> maxDistance t < code_distance hypot c (centroid_of (rects ! j))"
  shows "j \<notin> snd ` set (matches_of hypot t rects) \<and>
         id_of_col hypot t rects j \<in> set (fst (update_log hypot t rects)) \<and>
         id_of_col hypot t rects j \<notin> live t \<and>
         centroid_at (update hypot t rects) (id_of_col hypot t rects j) = Some (centroid_of (rects ! j)) \<and>
         count_at (update hypot t rects) (id_of_col hypot t rects j) = Some (Count 0) \<and>
         (\<forall>i c. centroid_at t i = Some c \<and>
             (\<forall>k < length rects. k \<noteq> j \<longrightarrow>
                maxDistance t < code_distance hypot c (centroid_of (rects ! k)) \<or>
                (\<exists>m \<in> set (matches_of hypot t rects).
                   snd m = k \<and> keys (objects t) ! fst m \<noteq> i))
           \<longrightarrow> unmatched hypot t rects i) \<and>
         (\<forall>i n. unmatched hypot t rects i \<and> count_at t i = Some (Count n)
           \<longrightarrow> (if maxDisappeared t < int (Suc n) then i \<notin> live (update hypot t rects)
                else count_at (update hypot t rects) i = Some (Count (Suc n)) \<and>
                     centroid_at (update hypot t rects) i = centroid_at t i \<and>
                     i \<in> live (update hypot t rects)))"
proof -
  have wf: "wf_maps t" using assms(1) by (simp add: inv_def)
  have 1: "j \<notin> snd ` set (matches_of hypot t rects)"
  proof
    assume "j \<in> snd ` set (matches_of hypot t rects)"
    then obtain m where m: "m \<in> set (matches_of hypot t rects)" "snd m = j" by auto
    from match_within [OF wf m(1)] m(2) assms(3) show False by auto
  qed
  have new: "nextObjectID t \<le> id_of_col hypot t rects j" by (rule id_of_col_unmatched [OF 1])
  then have 3: "id_of_col hypot t rects j \<notin> live t" using assms(1) by (auto simp: inv_def)
  with id_of_col_source [where hypot = hypot, OF assms(1,2)]
  have 2: "id_of_col hypot t rects j \<in> set (fst (update_log hypot t rects))" by simp
  have 4: "unmatched hypot t rects i"
    if c: "centroid_at t i = Some c"
      and only: "\<forall>k < length rects. k \<noteq> j \<longrightarrow>
                maxDistance t < code_distance hypot c (centroid_of (rects ! k)) \<or>
                (\<exists>m \<in> set (matches_of hypot t rects).
                   snd m = k \<and> keys (objects t) ! fst m \<noteq> i)"
    for i c
  proof (rule no_candidate_unmatched [OF wf c])
    show "\<forall>k < length rects.
           maxDistance t < code_distance hypot c (centroid_of (rects ! k)) \<or>
           (\<exists>m \<in> set (matches_of hypot t rects). snd m = k \<and> keys (objects t) ! fst m \<noteq> i)"
    proof (intro allI impI)
      fix k assume k: "k < length rects"
      show "maxDistance t < code_distance hypot c (centroid_of (rects ! k)) \<or>
           (\<exists>m \<in> set (matches_of hypot t rects). snd m = k \<and> keys (objects t) ! fst m \<noteq> i)"
      proof (cases "k = j")
        case True
        with assms(3) c show ?thesis by blast
      next
        case False
        with only k show ?thesis by simp
      qed
    qed
  qed
  have 5: "if maxDisappeared t < int (Suc n) then i \<notin> live (update hypot t rects)
           else count_at (update hypot t rects) i = Some (Count (Suc n)) \<and>
                centroid_at (update hypot t rects) i = centroid_at t i \<and>
                i \<in> live (update hypot t rects)"
    if "unmatched hypot t rects i" "count_at t i = Some (Count n)" for i n
    by (rule update_unmatched_count [OF assms(1) that])
  from 1 2 3 4 5 id_of_col_centroid [where hypot = hypot, OF assms(1,2)]
  show ?thesis by blast
qed

text \<open>
  Scenario C of the specification, on one horizontal line: \<open>maxDistance = 10\<close>, an object
  at (0, 0), then a box at (50, 0). The box gets the new id 2 and object 1 has one miss.
\<close>

theorem far_detection_registered_witness:
  "id_of_col euclid (update euclid (CentroidTracker 1 10) [(0, 0, 0, 0)]) [(50, 0, 50, 0)] 0 = 2 \<and>
   centroid_at (update euclid (update euclid (CentroidTracker 1 10) [(0, 0, 0, 0)]) [(50, 0, 50, 0)]) 2
     = Some (50, 0) \<and>
   count_at (update euclid (update euclid (CentroidTracker 1 10) [(0, 0, 0, 0)]) [(50, 0, 50, 0)]) 1
     = Some (Count 1)"
proof -
  let ?t = "update euclid (CentroidTracker 1 10) [(0, 0, 0, 0)]"
  let ?rects = "[(50, 0, 50, 0)] :: rect list"
  have t: "?t = \<lparr>nextObjectID = 2, objects = [(1, (0, 0))], disappeared = [(1, Count 0)],
                  maxDisappeared = 1, maxDistance = 10\<rparr>"
    by (simp add: eval_defs)
  have i: "inv ?t"
    unfolding t by (simp add: inv_def wf_maps_def same_keys_def live_def keys_def)
  have c: "centroid_at ?t = [1 \<mapsto> (0, 0)]" and n: "count_at ?t 1 = Some (Count 0)"
    unfolding t by (simp_all add: centroid_at_eq count_at_eq)
  have far: "\<forall>i c. centroid_at ?t i = Some c
               \<longrightarrow> maxDistance ?t < code_distance euclid c (centroid_of (?rects ! 0))"
    unfolding c unfolding t
    by (auto simp: code_distance_def centroid_of_def round_half_def euclid_gt_iff split: if_splits)
  have m: "matches_of euclid ?t ?rects = []"
    unfolding t by (simp add: matches_of_def eval_defs)
  have id: "id_of_col euclid ?t ?rects 0 = 2"
    unfolding id_of_col_def m unfolding t by simp
  have un: "unmatched euclid ?t ?rects 1"
    unfolding unmatched_def m unfolding t by (simp add: live_def keys_def)
  have md: "maxDisappeared ?t = 1" unfolding t by simp
  from far_detection_registered [OF i _ far] id un n md
  show ?thesis by (simp add: centroid_of_def round_half_def)
qed


text \<open>
  Claim C4. Over any sequence of \<open>update\<close> calls on a freshly constructed tracker, the
  ids issued, in the order of issue, are strictly increasing: each is greater than every
  id issued before it. So no id is issued twice, whatever was removed in between, and
  every id is positive.
\<close>

theorem ids_strictly_increasing:
  "sorted_wrt (<) (issued hypot (CentroidTracker maxDisappeared0 maxDistance0) frames) \<and>
   distinct (issued hypot (CentroidTracker maxDisappeared0 maxDistance0) frames) \<and>
   (\<forall>i \<in> set (issued hypot (CentroidTracker maxDisappeared0 maxDistance0) frames). 0 < i)"
proof -
  let ?t = "CentroidTracker maxDisappeared0 maxDistance0"
  have "issued hypot ?t frames = [1 ..< nextObjectID (updates hypot ?t frames)]"
    using issued_range [of hypot ?t frames] by (simp add: CentroidTracker_def)
  then show ?thesis by (simp add: sorted_wrt_upt)
qed

text \<open>
  With \<open>maxDisappeared = 1\<close>: id 1 is issued, removed after two empty frames, and the
  same box then gets id 2, not id 1 again.
\<close>

theorem ids_strictly_increasing_witness:
  "issued euclid (CentroidTracker 1 50)
     [[(0, 0, 20, 20)], [], [], [(0, 0, 20, 20), (200, 0, 220, 20)]] = [1, 2, 3] \<and>
   sorted_wrt (<)
     (issued euclid (CentroidTracker 1 50)
        [[(0, 0, 20, 20)], [], [], [(0, 0, 20, 20), (200, 0, 220, 20)]])"
  using ids_strictly_increasing [where hypot = euclid and ?maxDisappeared0.0 = 1
      and ?maxDistance0.0 = 50
      and frames = "[[(0, 0, 20, 20)], [], [], [(0, 0, 20, 20), (200, 0, 220, 20)]]"]
  by (simp add: eval_defs)

text \<open>
  Claim C5, as the code has it. Let \<open>Math.hypot\<close> return a result that is not negative
  and is 0 exactly for two zero arguments. Take a tracker that satisfies the invariant,
  with \<open>maxDistance \<ge> 0\<close>, and call \<open>update\<close> twice with the same boxes. The second call
  issues no id and registers nothing, and every object live after it has the centroid it
  had before it. An object live before the second call and not after it is one that the
  call left unmatched and whose miss counter that took over \<open>maxDisappeared\<close>; when no
  live object that the call leaves unmatched is that close to the threshold, the live ids
  are unchanged.
\<close>

theorem same_frame_again:
  assumes "is_hypot hypot" and "inv t" and "0 \<le> maxDistance t"
  shows "fst (update_log hypot (update hypot t rects) rects) = [] \<and>
         live (update hypot (update hypot t rects) rects) \<subseteq> live (update hypot t rects) \<and>
         (\<forall>i \<in> live (update hypot (update hypot t rects) rects).
            centroid_at (update hypot (update hypot t rects) rects) i
              = centroid_at (update hypot t rects) i) \<and>
         (\<forall>i \<in> live (update hypot t rects).
            i \<notin> live (update hypot (update hypot t rects) rects)
              \<longrightarrow> unmatched hypot (update hypot t rects) rects i \<and>
                  aged_out (update hypot t rects) i) \<and>
         ((\<forall>i \<in> live (update hypot t rects).
             unmatched hypot (update hypot t rects) rects i
               \<longrightarrow> \<not> aged_out (update hypot t rects) i)
            \<longrightarrow> live (update hypot (update hypot t rects) rects) = live (update hypot t rects))"
proof -
  let ?u = "update hypot t rects"
  let ?v = "update hypot ?u rects"
  note at = repeated_frame_at [OF assms]
  have n: "nextObjectID ?v = nextObjectID ?u"
  proof (cases "objects ?u = []")
    case True
    then have "rects = []" using update_length_ge [OF assms(2), of rects hypot] by simp
    with True show ?thesis by (simp add: update_first)
  next
    case False
    then obtain i where "i \<in> live ?u" by (cases "objects ?u") (auto simp: live_def keys_def)
    from at [OF this] show ?thesis by simp
  qed
  then have 1: "fst (update_log hypot ?u rects) = []" by (rule update_log_nothing_issued)
  have 2: "live ?v \<subseteq> live ?u" using live_update_subset [of hypot ?u rects] n by simp
  have 3: "centroid_at ?v i = centroid_at ?u i" if "i \<in> live ?v" for i
  proof -
    from that 2 have "i \<in> live ?u" by auto
    from at [OF this] that show ?thesis by (auto simp: live_dom)
  qed
  have 4: "unmatched hypot ?u rects i \<and> aged_out ?u i" if "i \<in> live ?u" "i \<notin> live ?v" for i
    using at [OF that(1)] that by (auto simp: live_dom)
  from 2 4 have 5: "(\<forall>i \<in> live ?u. unmatched hypot ?u rects i \<longrightarrow> \<not> aged_out ?u i)
                      \<longrightarrow> live ?v = live ?u" by blast
  from 1 2 3 4 5 show ?thesis by blast
qed

text \<open>
  With \<open>maxDisappeared = 1\<close>: objects 1 and 2, then the frame with one box near object 1,
  twice. The second of these calls issues no id and leaves object 1 where it is; it
  removes object 2, unmatched for the second time.
\<close>

theorem same_frame_again_witness:
  "fst (update_log euclid (update euclid (update euclid (CentroidTracker 1 50)
          [(0, 0, 20, 20), (200, 0, 220, 20)]) [(4, 0, 24, 20)]) [(4, 0, 24, 20)]) = [] \<and>
   objects (update euclid (update euclid (CentroidTracker 1 50)
          [(0, 0, 20, 20), (200, 0, 220, 20)]) [(4, 0, 24, 20)])
     = [(1, (14, 10)), (2, (210, 10))] \<and>
   objects (update euclid (update euclid (update euclid (CentroidTracker 1 50)
          [(0, 0, 20, 20), (200, 0, 220, 20)]) [(4, 0, 24, 20)]) [(4, 0, 24, 20)])
     = [(1, (14, 10))]"
proof -
  let ?t = "update euclid (CentroidTracker 1 50) [(0, 0, 20, 20), (200, 0, 220, 20)]"
  have t: "?t = \<lparr>nextObjectID = 3, objects = [(1, (10, 10)), (2, (210, 10))],
                  disappeared = [(1, Count 0), (2, Count 0)], maxDisappeared = 1,
                  maxDistance = 50\<rparr>"
    by (simp add: eval_defs)
  have i: "inv ?t"
    unfolding t by (simp add: inv_def wf_maps_def same_keys_def live_def keys_def)
  have md: "0 \<le> maxDistance ?t" unfolding t by simp
  have u: "update euclid ?t [(4, 0, 24, 20)] = \<lparr>nextObjectID = 3,
             objects = [(1, (14, 10)), (2, (210, 10))],
             disappeared = [(1, Count 0), (2, Count 1)], maxDisappeared = 1, maxDistance = 50\<rparr>"
    unfolding t by (simp add: eval_defs)
  have v: "objects (update euclid (update euclid ?t [(4, 0, 24, 20)]) [(4, 0, 24, 20)])
             = [(1, (14, 10))]"
    unfolding u by (simp add: eval_defs)
  from same_frame_again [OF is_hypot_euclid i md, where rects = "[(4, 0, 24, 20)]"] u v
  show ?thesis by simp
qed

text \<open>
  Claim C5 as stated fails. With \<open>maxDisappeared = 1\<close>, objects 1 and 2 and then twice the
  frame with one box near object 1: the second of these calls removes object 2. And with
  \<open>maxDistance = -1\<close> nothing ever matches: the same box again is registered again.
\<close>

theorem same_frame_again_counterexample:
  "live (update euclid (update euclid (update euclid (CentroidTracker 1 50)
           [(0, 0, 20, 20), (200, 0, 220, 20)]) [(4, 0, 24, 20)]) [(4, 0, 24, 20)])
     \<noteq> live (update euclid (update euclid (CentroidTracker 1 50)
           [(0, 0, 20, 20), (200, 0, 220, 20)]) [(4, 0, 24, 20)]) \<and>
   live (update euclid (update euclid (CentroidTracker 1 (- 1)) [(0, 0, 20, 20)]) [(0, 0, 20, 20)])
     \<noteq> live (update euclid (CentroidTracker 1 (- 1)) [(0, 0, 20, 20)])"
proof -
  have "live (update euclid (update euclid (update euclid (CentroidTracker 1 50)
           [(0, 0, 20, 20), (200, 0, 220, 20)]) [(4, 0, 24, 20)]) [(4, 0, 24, 20)]) = {1}"
    by (simp add: live_def eval_defs)
  moreover have "live (update euclid (update euclid (CentroidTracker 1 50)
           [(0, 0, 20, 20), (200, 0, 220, 20)]) [(4, 0, 24, 20)]) = {1, 2}"
    by (simp add: live_def eval_defs numeral_2_eq_2)
  moreover have "live (update euclid (update euclid (CentroidTracker 1 (- 1)) [(0, 0, 20, 20)])
           [(0, 0, 20, 20)]) = {1, 2}"
    by (simp add: live_def eval_defs euclid_gt_neg numeral_2_eq_2)
  moreover have "live (update euclid (CentroidTracker 1 (- 1)) [(0, 0, 20, 20)]) = {1}"
    by (simp add: live_def eval_defs)
  ultimately show ?thesis by auto
qed

text \<open>
  Claim C6. After \<open>update\<close>, the \<open>track_id\<close> that \<open>tick\<close> gives to detection \<open>i\<close> is the id
  of an entry of the returned mapping whose centroid is at the least distance from the
  detection's centroid, and it is the first such entry in the iteration order of the
  mapping: every entry before it is strictly farther. This holds for the distances that
  the code computes, whatever \<open>Math.hypot\<close> returns, and for the Euclidean distance when
  the result of \<open>Math.hypot\<close> is not negative and is 0 exactly for two zero arguments.
\<close>

theorem tick_nearest_first:
  assumes "inv t" and "i < length rects"
  shows "\<exists>k. nearest_first (code_distance hypot) (objects (update hypot t rects))
               (centroid_of (rects ! i)) k \<and>
             (is_hypot hypot \<longrightarrow>
                nearest_first distance (objects (update hypot t rects)) (centroid_of (rects ! i)) k) \<and>
             tick_ids hypot t rects ! i = Some (fst (objects (update hypot t rects) ! k))"
proof -
  let ?objs = "objects (update hypot t rects)" and ?c = "centroid_of (rects ! i)"
  have "map_of ?objs (id_of_col hypot t rects i) = Some ?c"
    using id_of_col_centroid [where hypot = hypot, OF assms] by (simp add: centroid_at_eq)
  then have "(id_of_col hypot t rects i, ?c) \<in> set ?objs" by (rule map_of_SomeD)
  then obtain k0 where k0: "k0 < length ?objs" "?objs ! k0 = (id_of_col hypot t rects i, ?c)"
    by (auto simp: in_set_conv_nth)
  then have ne: "?objs \<noteq> []" by auto
  from fold_best_step [OF ne, of hypot ?c]
  obtain k where k: "nearest_first (code_distance hypot) ?objs ?c k"
    and f: "fold (best_step hypot ?c) ?objs None
              = Some (fst (?objs ! k), code_distance hypot (snd (?objs ! k)) ?c)"
    by blast
  have "nearest_first distance ?objs ?c k" if "is_hypot hypot"
    using nearest_first_exact [OF that k k0(1)] k0(2) by simp
  moreover have "tick_ids hypot t rects ! i = Some (fst (?objs ! k))"
    using f assms(2) by (simp add: tick_ids_def best_id_def Let_def)
  ultimately show ?thesis using k by blast
qed

text \<open>
  Objects 1 and 2 at (10, 10) and (30, 10), and a box with centroid (20, 10), at the same
  distance from both and too far to match either: it gets id 3, and the lookup, for which
  the new object 3 is at distance 0, returns 3. A second box at (50, 10) is registered as
  4 and returns 4.
\<close>

theorem tick_nearest_first_witness:
  "tick_ids euclid (update euclid (CentroidTracker 1 5) [(0, 0, 20, 20), (20, 0, 40, 20)])
     [(10, 0, 30, 20), (40, 0, 60, 20)] = [Some 3, Some 4] \<and>
   nearest_first distance
     (objects (update euclid (update euclid (CentroidTracker 1 5) [(0, 0, 20, 20), (20, 0, 40, 20)])
        [(10, 0, 30, 20), (40, 0, 60, 20)])) (20, 10) 2"
proof -
  let ?t = "update euclid (CentroidTracker 1 5) [(0, 0, 20, 20), (20, 0, 40, 20)]"
  let ?rects = "[(10, 0, 30, 20), (40, 0, 60, 20)] :: rect list"
  have t: "?t = \<lparr>nextObjectID = 3, objects = [(1, (10, 10)), (2, (30, 10))],
                  disappeared = [(1, Count 0), (2, Count 0)], maxDisappeared = 1,
                  maxDistance = 5\<rparr>"
    by (simp add: eval_defs)
  have i: "inv ?t"
    unfolding t by (simp add: inv_def wf_maps_def same_keys_def live_def keys_def)
  have u: "objects (update euclid ?t ?rects)
             = [(1, (10, 10)), (2, (30, 10)), (3, (20, 10)), (4, (50, 10))]"
    unfolding t by (simp add: eval_defs)
  have ids: "tick_ids euclid ?t ?rects = [Some 3, Some 4]"
    unfolding tick_ids_def Let_def u
    by (simp add: best_id_def best_step_def centroid_of_def round_half_def euclid_less_iff)
  have n: "nearest_first distance [(1, (10, 10)), (2, (30, 10)), (3, (20, 10)), (4, (50, 10))]
             (20, 10) 2"
    by (simp add: nearest_first_def distance_def euclid_less_iff euclid_le_iff less_Suc_eq
        all_conj_distrib eval_nat_numeral)
  from tick_nearest_first [OF i, where hypot = euclid and i = 0 and rects = ?rects]
    is_hypot_euclid ids n u
  show ?thesis by simp
qed

text \<open>
  Claim C7, as the code has it. The constructor checks nothing: for every pair of
  arguments, non-positive ones included, it returns a tracker that holds them, with next
  id 1 and no objects.
\<close>

theorem constructor_accepts_any:
  "new_CentroidTracker a b =
     Some \<lparr>nextObjectID = 1, objects = [], disappeared = [],
           maxDisappeared = (case a of None \<Rightarrow> 50 | Some v \<Rightarrow> v),
           maxDistance = (case b of None \<Rightarrow> 50 | Some v \<Rightarrow> v)\<rparr>"
  by (simp add: new_CentroidTracker_def CentroidTracker_def)

text \<open>
  Claim C7 as stated fails: with \<open>maxDisappeared = 0\<close> and \<open>maxDistance = -1\<close> the
  constructor returns a tracker, and \<open>update\<close> runs on it.
\<close>

theorem constructor_rejects_counterexample:
  "new_CentroidTracker (Some 0) (Some (- 1)) = Some (CentroidTracker 0 (- 1)) \<and>
   objects (update euclid (CentroidTracker 0 (- 1)) [(0, 0, 20, 20)]) = [(1, (10, 10))]"
  by (simp add: new_CentroidTracker_def eval_defs)

text \<open>
  Claim C8. After any sequence of \<open>update\<close> calls on a tracker constructed with
  \<open>maxDisappeared \<ge> 0\<close>, every miss counter in the table is a number (never \<open>NaN\<close>)
  between 0 and \<open>maxDisappeared\<close>: a counter above the threshold is never left in the
  table.
\<close>

theorem counts_never_exceed:
  assumes "0 \<le> maxDisappeared0"
  shows "counts_bounded (updates hypot (CentroidTracker maxDisappeared0 maxDistance0) frames)"
proof (induction frames rule: rev_induct)
  case Nil
  show ?case
    by (simp add: updates_def counts_bounded_def count_at_def map_get_def CentroidTracker_def)
next
  case (snoc rects frames)
  let ?t = "updates hypot (CentroidTracker maxDisappeared0 maxDistance0) frames"
  have "inv ?t" by (simp add: inv_updates inv_CentroidTracker)
  moreover have "0 \<le> maxDisappeared ?t"
    using assms by (simp add: updates_fields CentroidTracker_def)
  ultimately show ?case
    using snoc by (simp add: updates_snoc counts_bounded_update)
qed

text \<open>
  With \<open>maxDisappeared = 1\<close>: two objects, then two frames that match only the first.
  The second object is dropped when its counter would become 2.
\<close>

theorem counts_never_exceed_witness:
  "counts_bounded
     (updates euclid (CentroidTracker 1 50)
        [[(0, 0, 20, 20), (200, 0, 220, 20)], [(4, 0, 24, 20)]]) \<and>
   disappeared
     (updates euclid (CentroidTracker 1 50)
        [[(0, 0, 20, 20), (200, 0, 220, 20)], [(4, 0, 24, 20)]])
   = [(1, Count 0), (2, Count 1)] \<and>
   disappeared
     (updates euclid (CentroidTracker 1 50)
        [[(0, 0, 20, 20), (200, 0, 220, 20)], [(4, 0, 24, 20)], [(4, 0, 24, 20)]])
   = [(1, Count 0)]"
  using counts_never_exceed [where hypot = euclid and ?maxDisappeared0.0 = 1
      and ?maxDistance0.0 = 50
      and frames = "[[(0, 0, 20, 20), (200, 0, 220, 20)], [(4, 0, 24, 20)]]"]
  by (simp add: eval_defs)

text \<open>
  Claim C9. On a tracker whose two tables are maps (every key once) with the same key
  set, \<open>register\<close>, \<open>deregister\<close> and \<open>update\<close> each leave two maps with the same key
  set: an id has a centroid exactly when it has a miss counter.
\<close>

theorem tables_same_keys:
  assumes "wf_maps t" and "same_keys t"
  shows "same_keys (snd (register t c)) \<and> wf_maps (snd (register t c)) \<and>
         same_keys (deregister t i) \<and> wf_maps (deregister t i) \<and>
         same_keys (update hypot t rects) \<and> wf_maps (update hypot t rects)"
  using assms
  by (simp add: same_keys_register same_keys_deregister same_keys_update
      wf_maps_register wf_maps_deregister wf_maps_update)

text \<open>The tracker after a first frame of two boxes, and the three operations on it.\<close>

theorem tables_same_keys_witness:
  "wf_maps (update euclid (CentroidTracker 1 50) [(0, 0, 20, 20), (200, 0, 220, 20)]) \<and>
   same_keys (update euclid (CentroidTracker 1 50) [(0, 0, 20, 20), (200, 0, 220, 20)]) \<and>
   same_keys (snd (register (update euclid (CentroidTracker 1 50)
                [(0, 0, 20, 20), (200, 0, 220, 20)]) (5, 5))) \<and>
   same_keys (deregister (update euclid (CentroidTracker 1 50)
                [(0, 0, 20, 20), (200, 0, 220, 20)]) 1) \<and>
   same_keys (update euclid (update euclid (CentroidTracker 1 50)
                [(0, 0, 20, 20), (200, 0, 220, 20)]) [(4, 0, 24, 20)])"
proof -
  let ?t = "update euclid (CentroidTracker 1 50) [(0, 0, 20, 20), (200, 0, 220, 20)]"
  have t: "?t = \<lparr>nextObjectID = 3, objects = [(1, (10, 10)), (2, (210, 10))],
                  disappeared = [(1, Count 0), (2, Count 0)], maxDisappeared = 1,
                  maxDistance = 50\<rparr>"
    by (simp add: eval_defs)
  have h: "wf_maps ?t" "same_keys ?t"
    unfolding t by (simp_all add: wf_maps_def same_keys_def keys_def)
  from tables_same_keys [OF h, where c = "(5, 5)" and i = 1 and hypot = euclid
      and rects = "[(4, 0, 24, 20)]"] h
  show ?thesis by simp
qed

text \<open>
  Claim C10. On a tracker that satisfies the invariant, \<open>update\<close> leaves every detection
  with an object of its own: distinct detections have distinct ids, each id is live after
  the call with the detection's centroid and miss counter 0, and it is the id of an object
  that was live before (a match) or an id issued in this call. So the returned mapping has
  at least as many entries as there were boxes, and is not empty when there was a box.
\<close>

theorem update_covers_detections:
  assumes "inv t"
  shows "inj_on (id_of_col hypot t rects) {..<length rects} \<and>
         (\<forall>c < length rects.
            centroid_at (update hypot t rects) (id_of_col hypot t rects c)
              = Some (centroid_of (rects ! c)) \<and>
            count_at (update hypot t rects) (id_of_col hypot t rects c) = Some (Count 0) \<and>
            id_of_col hypot t rects c \<in> live (update hypot t rects) \<and>
            (id_of_col hypot t rects c \<in> live t \<or>
             id_of_col hypot t rects c \<in> set (fst (update_log hypot t rects)))) \<and>
         length rects \<le> length (objects (update hypot t rects)) \<and>
         (rects \<noteq> [] \<longrightarrow> objects (update hypot t rects) \<noteq> [])"
proof -
  let ?u = "update hypot t rects" and ?f = "id_of_col hypot t rects"
  have len: "length rects \<le> length (objects ?u)" by (rule update_length_ge [OF assms])
  then have ne: "rects \<noteq> [] \<longrightarrow> objects ?u \<noteq> []" by auto
  have "\<forall>c < length rects.
            centroid_at ?u (?f c) = Some (centroid_of (rects ! c)) \<and>
            count_at ?u (?f c) = Some (Count 0) \<and> ?f c \<in> live ?u \<and>
            (?f c \<in> live t \<or> ?f c \<in> set (fst (update_log hypot t rects)))"
    using id_of_col_centroid [where hypot = hypot, OF assms]
      id_of_col_source [where hypot = hypot, OF assms] by simp
  with id_of_col_inj [where hypot = hypot, OF assms] len ne show ?thesis by simp
qed

text \<open>
  Two objects and three boxes: the first box is matched to object 1, the far ones get the
  new ids 3 and 4, and object 2, unmatched, stays.
\<close>

theorem update_covers_detections_witness:
  "inv (update euclid (CentroidTracker 1 50) [(0, 0, 20, 20), (200, 0, 220, 20)]) \<and>
   map (id_of_col euclid (update euclid (CentroidTracker 1 50) [(0, 0, 20, 20), (200, 0, 220, 20)])
          [(4, 0, 24, 20), (400, 0, 420, 20), (600, 0, 620, 20)]) [0, 1, 2] = [1, 3, 4] \<and>
   3 \<le> length (objects (update euclid (update euclid (CentroidTracker 1 50)
          [(0, 0, 20, 20), (200, 0, 220, 20)])
          [(4, 0, 24, 20), (400, 0, 420, 20), (600, 0, 620, 20)]))"
proof -
  let ?t = "update euclid (CentroidTracker 1 50) [(0, 0, 20, 20), (200, 0, 220, 20)]"
  let ?rects = "[(4, 0, 24, 20), (400, 0, 420, 20), (600, 0, 620, 20)] :: rect list"
  have t: "?t = \<lparr>nextObjectID = 3, objects = [(1, (10, 10)), (2, (210, 10))],
                  disappeared = [(1, Count 0), (2, Count 0)], maxDisappeared = 1,
                  maxDistance = 50\<rparr>"
    by (simp add: eval_defs)
  have i: "inv ?t"
    unfolding t by (simp add: inv_def wf_maps_def same_keys_def live_def keys_def)
  have m: "matches_of euclid ?t ?rects = [(0, 0)]"
    unfolding t by (simp add: matches_of_def eval_defs)
  have ids: "map (id_of_col euclid ?t ?rects) [0, 1, 2] = [1, 3, 4]"
    unfolding id_of_col_def m unfolding t by (simp add: keys_def eval_nat_numeral)
  from update_covers_detections [OF i, where hypot = euclid and rects = ?rects] i ids
  show ?thesis by simp
qed

end
